theory Spec2Isabelle
  imports Main "HOL-Library.AList" "HOL-Library.Log_Nat"
begin

section \<open>Errors\<close>

text \<open>
  Every exception the storage module can raise is a value. \<open>RuntimeError\<close> carries its
  message, because \<open>load_chunk_of_edges\<close> is specified by the text of its two messages.
\<close>

datatype error =
    AssertionError
  | CouldNotLoadData
  | ValueError
  | JSONDecodeError
  | KeyError string
  | ZeroDivisionError
  | OverflowError
  | TypeError
  | IndexError
  | RuntimeError string

text \<open>Sequencing of fallible steps: the first exception ends the computation.\<close>

definition and_then :: "error + 'a \<Rightarrow> ('a \<Rightarrow> error + 'b) \<Rightarrow> error + 'b" where
  "and_then r f = (case r of Inl e \<Rightarrow> Inl e | Inr x \<Rightarrow> f x)"

section \<open>BufferedDataset\<close>

text \<open>
  \<open>BufferedDataset\<close> owns a resizable one-dimensional HDF5 dataset (\<open>dataset\<close>, the
  on-disk column, created with shape \<open>(0,)\<close>), a buffer of \<open>BUFFER_SIZE\<close> elements, the
  number of buffered elements and the count of everything appended so far. The elements
  are \<open>torch.long\<close> values; the writer only copies them.

  \<open>torch.empty\<close> leaves the buffer's initial contents unspecified; the model fills it
  with zeros. Only \<open>buffer[:buffer_offset]\<close> is ever read.
\<close>

definition BUFFER_SIZE :: int where
  "BUFFER_SIZE = 2 ^ 20 div 8"

record BufferedDataset =
  dataset_name :: string
  dataset :: "int list"
  buffer :: "int list"
  buffer_offset :: int
  total_data :: int

definition BufferedDataset_init :: "string \<Rightarrow> BufferedDataset" where
  "BufferedDataset_init name =
     \<lparr> dataset_name = name,
       dataset = [],
       buffer = replicate (nat BUFFER_SIZE) 0,
       buffer_offset = 0,
       total_data = 0 \<rparr>"

text \<open>
  Slices with bounds inside the sequence, which is where the writer uses them:
  \<open>xs[i:j]\<close> and the assignment \<open>xs[i:i + len(src)] = src\<close>.
\<close>

definition slice :: "'a list \<Rightarrow> int \<Rightarrow> int \<Rightarrow> 'a list" where
  "slice xs i j = take (nat (j - i)) (drop (nat i) xs)"

definition set_slice :: "'a list \<Rightarrow> int \<Rightarrow> 'a list \<Rightarrow> 'a list" where
  "set_slice xs i src = take (nat i) xs @ src @ drop (nat i + length src) xs"

text \<open>
  \<open>flush_buffer\<close>: the assertion when not final, the early return on an empty final
  flush, then the resize by \<open>buffer_offset\<close> and the write of \<open>buffer[:buffer_offset]\<close>
  into the new tail of the dataset.
\<close>

definition flush_buffer :: "BufferedDataset \<Rightarrow> bool \<Rightarrow> error + BufferedDataset" where
  "flush_buffer s last_flag =
     (if \<not> last_flag \<and> buffer_offset s \<noteq> BUFFER_SIZE then Inl AssertionError
      else if last_flag \<and> buffer_offset s = 0 then Inr s
      else Inr (s\<lparr> dataset := dataset s @ slice (buffer s) 0 (buffer_offset s),
                   buffer_offset := 0 \<rparr>))"

text \<open>
  The \<open>while True\<close> loop of \<open>append\<close>, with \<open>tensor_offset\<close> as the loop variable. The
  first branch fills the buffer to capacity, flushes and continues; the second copies
  the rest of the tensor and breaks.
\<close>

function append_loop :: "int list \<Rightarrow> int \<Rightarrow> BufferedDataset \<Rightarrow> error + BufferedDataset" where
  "append_loop tensor tensor_offset s =
     (let tensor_left = int (length tensor) - tensor_offset;
          buffer_left = BUFFER_SIZE - buffer_offset s
      in if tensor_left \<ge> buffer_left then
           (case flush_buffer
                   (s\<lparr> buffer := set_slice (buffer s) (buffer_offset s)
                                    (slice tensor tensor_offset (tensor_offset + buffer_left)),
                       buffer_offset := buffer_offset s + buffer_left \<rparr>) False of
              Inl e \<Rightarrow> Inl e
            | Inr s' \<Rightarrow> append_loop tensor (tensor_offset + buffer_left) s')
         else
           Inr (s\<lparr> buffer := set_slice (buffer s) (buffer_offset s)
                                 (slice tensor tensor_offset (tensor_offset + tensor_left)),
                    buffer_offset := buffer_offset s + tensor_left \<rparr>))"
  by pat_completeness auto
termination
proof (relation "measures [\<lambda>(tensor, tensor_offset, s). if buffer_offset s \<ge> BUFFER_SIZE then 1 else 0,
                           \<lambda>(tensor, tensor_offset, s). nat (int (length tensor) - tensor_offset)]",
       goal_cases)
  case 1
  show ?case by simp
next
  case (2 tensor tensor_offset s tensor_left buffer_left s')
  then show ?case
    by (auto simp: flush_buffer_def BUFFER_SIZE_def split: if_splits)
qed

definition append :: "BufferedDataset \<Rightarrow> int list \<Rightarrow> error + BufferedDataset" where
  "append s tensor =
     (case append_loop tensor 0 s of
        Inl e \<Rightarrow> Inl e
      | Inr s' \<Rightarrow> Inr (s'\<lparr> total_data := total_data s' + int (length tensor) \<rparr>))"

text \<open>A sequence of appends on one writer; an exception ends it.\<close>

fun append_all :: "BufferedDataset \<Rightarrow> int list list \<Rightarrow> error + BufferedDataset" where
  "append_all s [] = Inr s"
| "append_all s (t # ts) =
     (case append s t of Inl e \<Rightarrow> Inl e | Inr s' \<Rightarrow> append_all s' ts)"

text \<open>
  Two notions used to state what the writer guarantees: the buffered values not yet
  flushed, and the invariant of a writer between calls of \<open>append\<close>.
\<close>

definition pending :: "BufferedDataset \<Rightarrow> int list" where
  "pending s = slice (buffer s) 0 (buffer_offset s)"

definition buffer_ok :: "BufferedDataset \<Rightarrow> bool" where
  "buffer_ok s =
     (int (length (buffer s)) = BUFFER_SIZE \<and> 0 \<le> buffer_offset s \<and>
      buffer_offset s \<le> BUFFER_SIZE)"

definition dataset_invariant :: "BufferedDataset \<Rightarrow> bool" where
  "dataset_invariant s =
     (int (length (buffer s)) = BUFFER_SIZE \<and>
      int (length (dataset s)) + buffer_offset s = total_data s \<and>
      0 \<le> buffer_offset s \<and> buffer_offset s < BUFFER_SIZE \<and>
      BUFFER_SIZE dvd int (length (dataset s)))"

section \<open>Ragged lists and edge lists\<close>

text \<open>
  Tensors of \<open>torch.long\<close> hold 64-bit signed integers; arithmetic on them wraps.
  \<open>wrap64\<close> is the value an exact result has once stored in such a tensor.
\<close>

definition wrap64 :: "int \<Rightarrow> int" where
  "wrap64 x = (x + 2 ^ 63) mod 2 ^ 64 - 2 ^ 63"

text \<open>
  Modelled from the spec: the classes \<open>TensorList\<close>, \<open>EntityList\<close> and \<open>EdgeList\<close> are
  imported by the storage module and defined elsewhere. A ragged list is a pair of
  \<open>offsets\<close> (one more than the number of records, non-decreasing) and flat \<open>data\<close>;
  record \<open>i\<close> holds \<open>data[offsets[i] - offsets[0] : offsets[i+1] - offsets[0]]\<close>. An
  endpoint list is a tensor of ids with a ragged list of dynamic features; an edge list
  is two endpoint lists and the tensor of relation types.
\<close>

record TensorList =
  offsets :: "int list"
  data :: "int list"

record EntityList =
  tensor :: "int list"
  tensor_list :: TensorList

record EdgeList =
  lhs :: EntityList
  rhs :: EntityList
  rel :: "int list"

text \<open>
  Modelled from the spec: the ragged list of a list of records, with offsets that start
  at 0, and the records of a ragged list.
\<close>

fun offsets_from :: "int \<Rightarrow> int list list \<Rightarrow> int list" where
  "offsets_from acc [] = [acc]"
| "offsets_from acc (r # rs) = acc # offsets_from (acc + int (length r)) rs"

definition ragged :: "int list list \<Rightarrow> TensorList" where
  "ragged rs = \<lparr> offsets = offsets_from 0 rs, data = concat rs \<rparr>"

definition records_of :: "TensorList \<Rightarrow> int list list" where
  "records_of tlist =
     map (\<lambda>i. slice (data tlist) (offsets tlist ! i - offsets tlist ! 0)
                               (offsets tlist ! (i + 1) - offsets tlist ! 0))
         [0 ..< length (offsets tlist) - 1]"

section \<open>HDF5 files\<close>

text \<open>
  An HDF5 file as the storage module uses it: integer attributes and named
  one-dimensional integer datasets.
\<close>

record h5file =
  attrs :: "string \<rightharpoonup> int"
  columns :: "string \<rightharpoonup> int list"

definition empty_h5file :: h5file where
  "empty_h5file = \<lparr> attrs = Map.empty, columns = Map.empty \<rparr>"

definition FORMAT_VERSION_ATTR :: string where
  "FORMAT_VERSION_ATTR = ''format_version''"

definition FORMAT_VERSION :: int where
  "FORMAT_VERSION = 1"

section \<open>FileEdgeAppender\<close>

text \<open>
  The appender holds the open file \<open>hf\<close> and the dictionary \<open>datasets\<close> of its column
  writers, in insertion order. Every dataset of the file is created by a
  \<open>BufferedDataset\<close> of this dictionary, under a name the dictionary did not hold, and
  the \<open>h5py.Dataset\<close> a writer owns is that column of the file: the contents are kept in
  the writer (\<open>dataset\<close>) and are the file's when the file is closed (\<open>close_file\<close>).
\<close>

record FileEdgeAppender =
  hf :: h5file
  datasets :: "(string \<times> BufferedDataset) list"

definition FileEdgeAppender_init :: "h5file \<Rightarrow> FileEdgeAppender" where
  "FileEdgeAppender_init f = \<lparr> hf = f, datasets = [] \<rparr>"

text \<open>\<open>self.datasets[name] = BufferedDataset(self.hf, name)\<close>\<close>

definition create_dataset :: "FileEdgeAppender \<Rightarrow> string \<Rightarrow> FileEdgeAppender" where
  "create_dataset a name =
     a\<lparr> datasets := AList.update name (BufferedDataset_init name) (datasets a) \<rparr>"

text \<open>\<open>self.datasets[name].append(tensor)\<close>\<close>

definition dataset_append :: "FileEdgeAppender \<Rightarrow> string \<Rightarrow> int list \<Rightarrow> error + FileEdgeAppender" where
  "dataset_append a name t =
     (case map_of (datasets a) name of
        None \<Rightarrow> Inl (KeyError name)
      | Some d \<Rightarrow>
          and_then (append d t)
            (\<lambda>d'. Inr (a\<lparr> datasets := AList.update name d' (datasets a) \<rparr>)))"

definition append_tensor :: "FileEdgeAppender \<Rightarrow> string \<Rightarrow> int list \<Rightarrow> error + FileEdgeAppender" where
  "append_tensor a name t =
     dataset_append
       (if map_of (datasets a) name = None then create_dataset a name else a) name t"

definition append_tensor_list :: "FileEdgeAppender \<Rightarrow> string \<Rightarrow> TensorList \<Rightarrow> error + FileEdgeAppender" where
  "append_tensor_list a name tlist =
     (let offsets_name = name @ ''_offsets'';
          data_name = name @ ''_data''
      in and_then
           (if map_of (datasets a) offsets_name = None
            then dataset_append (create_dataset a offsets_name) offsets_name [0]
            else Inr a)
           (\<lambda>a1.
              let a2 = (if map_of (datasets a1) data_name = None
                        then create_dataset a1 data_name else a1)
              in case map_of (datasets a2) data_name of
                   None \<Rightarrow> Inl (KeyError data_name)
                 | Some d \<Rightarrow>
                     let offs = map (\<lambda>x. wrap64 (x + total_data d)) (tl (offsets tlist));
                         dat = data tlist
                     in and_then (dataset_append a2 offsets_name offs)
                          (\<lambda>a3. dataset_append a3 data_name dat)))"

definition append_edges :: "FileEdgeAppender \<Rightarrow> EdgeList \<Rightarrow> error + FileEdgeAppender" where
  "append_edges a edgelist =
     and_then (append_tensor a ''lhs'' (tensor (lhs edgelist))) (\<lambda>a1.
     and_then (append_tensor a1 ''rhs'' (tensor (rhs edgelist))) (\<lambda>a2.
     and_then (append_tensor a2 ''rel'' (rel edgelist)) (\<lambda>a3.
     and_then (if length (data (tensor_list (lhs edgelist))) \<noteq> 0
               then append_tensor_list a3 ''lhsd'' (tensor_list (lhs edgelist))
               else Inr a3) (\<lambda>a4.
     if length (data (tensor_list (rhs edgelist))) \<noteq> 0
     then append_tensor_list a4 ''rhsd'' (tensor_list (rhs edgelist))
     else Inr a4))))"

text \<open>
  \<open>__exit__\<close>: every writer is flushed with \<open>_last = True\<close>, then the file is closed.
  The result is the file as it then is on disk.
\<close>

fun flush_all :: "(string \<times> BufferedDataset) list \<Rightarrow> error + (string \<times> BufferedDataset) list" where
  "flush_all [] = Inr []"
| "flush_all ((name, d) # rest) =
     and_then (flush_buffer d True) (\<lambda>d'.
     and_then (flush_all rest) (\<lambda>rest'. Inr ((name, d') # rest')))"

definition close_file :: "FileEdgeAppender \<Rightarrow> h5file" where
  "close_file a =
     (hf a)\<lparr> columns := columns (hf a) ++ (\<lambda>name. map_option dataset (map_of (datasets a) name)) \<rparr>"

definition FileEdgeAppender_exit :: "FileEdgeAppender \<Rightarrow> error + h5file" where
  "FileEdgeAppender_exit a =
     and_then (flush_all (datasets a)) (\<lambda>ds. Inr (close_file (a\<lparr> datasets := ds \<rparr>)))"

text \<open>
  Sequences of calls on one appender, and the state of the two columns of a ragged
  column \<open>name\<close> after the records \<open>R\<close> have been appended to it.
\<close>

fun append_tensor_lists :: "FileEdgeAppender \<Rightarrow> string \<Rightarrow> TensorList list \<Rightarrow> error + FileEdgeAppender" where
  "append_tensor_lists a name [] = Inr a"
| "append_tensor_lists a name (t # ts) =
     and_then (append_tensor_list a name t) (\<lambda>a'. append_tensor_lists a' name ts)"

fun append_edges_all :: "FileEdgeAppender \<Rightarrow> EdgeList list \<Rightarrow> error + FileEdgeAppender" where
  "append_edges_all a [] = Inr a"
| "append_edges_all a (e # es) = and_then (append_edges a e) (\<lambda>a'. append_edges_all a' es)"

definition ragged_state :: "FileEdgeAppender \<Rightarrow> string \<Rightarrow> int list list \<Rightarrow> bool" where
  "ragged_state a name R =
     (\<exists>d_o d_d. map_of (datasets a) (name @ ''_offsets'') = Some d_o \<and>
        map_of (datasets a) (name @ ''_data'') = Some d_d \<and>
        dataset_invariant d_o \<and> dataset_invariant d_d \<and>
        dataset d_o @ pending d_o = offsets_from 0 R \<and>
        dataset d_d @ pending d_d = concat R \<and>
        total_data d_d = int (length (concat R)))"

text \<open>
  The values an appender has been given for a column, flushed or still buffered, and
  the invariant of its writers. \<open>put_tensor\<close>, \<open>put_tensor_list\<close> and \<open>put_edges\<close> say what
  \<open>append_tensor\<close>, \<open>append_tensor_list\<close> and \<open>append_edges\<close> do to these values; the
  lemmas \<open>append_tensor_content\<close>, \<open>append_tensor_list_content\<close> and
  \<open>append_edges_content\<close> prove it of the code.
\<close>

definition column_of :: "FileEdgeAppender \<Rightarrow> string \<Rightarrow> int list option" where
  "column_of a name = map_option (\<lambda>d. dataset d @ pending d) (map_of (datasets a) name)"

definition writers_ok :: "FileEdgeAppender \<Rightarrow> bool" where
  "writers_ok a = (\<forall>name d. map_of (datasets a) name = Some d \<longrightarrow> dataset_invariant d)"

definition put_tensor :: "(string \<rightharpoonup> int list) \<Rightarrow> string \<Rightarrow> int list \<Rightarrow> (string \<rightharpoonup> int list)" where
  "put_tensor c name t = c(name \<mapsto> (case c name of None \<Rightarrow> [] | Some old \<Rightarrow> old) @ t)"

definition put_tensor_list :: "(string \<rightharpoonup> int list) \<Rightarrow> string \<Rightarrow> TensorList \<Rightarrow> (string \<rightharpoonup> int list)" where
  "put_tensor_list c name tlist =
     (let offsets_name = name @ ''_offsets'';
          data_name = name @ ''_data'';
          c1 = (if c offsets_name = None then c(offsets_name \<mapsto> [0]) else c);
          total = (case c1 data_name of None \<Rightarrow> 0 | Some old \<Rightarrow> int (length old));
          offs = map (\<lambda>x. wrap64 (x + total)) (tl (offsets tlist))
      in put_tensor (put_tensor c1 offsets_name offs) data_name (data tlist))"

definition put_edges :: "(string \<rightharpoonup> int list) \<Rightarrow> EdgeList \<Rightarrow> (string \<rightharpoonup> int list)" where
  "put_edges c edgelist =
     (let c1 = put_tensor c ''lhs'' (tensor (lhs edgelist));
          c2 = put_tensor c1 ''rhs'' (tensor (rhs edgelist));
          c3 = put_tensor c2 ''rel'' (rel edgelist);
          c4 = (if length (data (tensor_list (lhs edgelist))) \<noteq> 0
                then put_tensor_list c3 ''lhsd'' (tensor_list (lhs edgelist)) else c3)
      in if length (data (tensor_list (rhs edgelist))) \<noteq> 0
         then put_tensor_list c4 ''rhsd'' (tensor_list (rhs edgelist)) else c4)"

section \<open>Reading ragged columns\<close>

text \<open>
  \<open>slice(begin, end).indices(length)\<close>, as h5py takes a selection \<open>np.s_[begin:end]\<close>:
  a negative bound counts from the end, both bounds are clamped to the dataset, and a
  stop before the start selects nothing. \<open>read_direct\<close> fills the destination array,
  given here by its size \<open>n\<close>: with the selection when the two have one shape, with
  copies of its element when the selection has exactly one (h5py broadcasts it), and it
  raises \<open>TypeError\<close> otherwise.
\<close>

definition slice_index :: "nat \<Rightarrow> int \<Rightarrow> int" where
  "slice_index len i = (if i < 0 then max 0 (int len + i) else min i (int len))"

definition read_direct :: "int list \<Rightarrow> int \<Rightarrow> int \<Rightarrow> int \<Rightarrow> error + int list" where
  "read_direct ds n begin end =
     (let start = slice_index (length ds) begin;
          stop = slice_index (length ds) end;
          sel = (if stop < start then [] else slice ds start stop)
      in if int (length sel) = n then Inr sel
         else if length sel = 1 then Inr (replicate (nat n) (hd sel))
         else Inl TypeError)"

text \<open>
  torch raises \<open>RuntimeError\<close>, with a message of its own, when a tensor is created with or
  expanded to a negative size. The model keeps one text for these messages, the start
  of the first.
\<close>

definition negative_dimension :: string where
  "negative_dimension = ''Trying to create tensor with negative dimension''"

definition read_dynamic :: "h5file \<Rightarrow> string \<Rightarrow> int \<Rightarrow> int \<Rightarrow> error + TensorList" where
  "read_dynamic f key begin end =
     (case (columns f (key @ ''_offsets''), columns f (key @ ''_data'')) of
        (Some offsets_ds, Some data_ds) \<Rightarrow>
          if end - begin + 1 < 0 then Inl (RuntimeError negative_dimension)
          else
            and_then (read_direct offsets_ds (end - begin + 1) begin (end + 1)) (\<lambda>offs.
              if offs = [] then Inl IndexError
              else
                let data_begin = hd offs;
                    data_end = last offs
                in if data_end - data_begin < 0 then Inl (RuntimeError negative_dimension)
                   else
                     and_then
                       (if data_end - data_begin > 0
                        then read_direct data_ds (data_end - data_begin) data_begin data_end
                        else Inr [])
                       (\<lambda>dat.
                          Inr \<lparr> offsets = map (\<lambda>x. wrap64 (x - hd offs)) offs,
                                data = dat \<rparr>))
      | _ \<Rightarrow>
          if end - begin + 1 < 0 then Inl (RuntimeError negative_dimension)
          else Inr \<lparr> offsets = replicate (nat (end - begin + 1)) 0, data = [] \<rparr>)"

section \<open>Paths and text files\<close>

text \<open>
  A \<open>pathlib.Path\<close> is the list of its parts. \<open>p / name\<close> adds one part; the names the
  storage classes build are single parts. The file system maps the paths of the regular
  files to their contents; directories, permissions and other kinds of files are not
  modelled, so \<open>is_file\<close> is membership.
\<close>

type_synonym path = "string list"

definition joinpath :: "path \<Rightarrow> string \<Rightarrow> path" where
  "joinpath p name = p @ [name]"

definition is_file :: "(path \<rightharpoonup> 'a) \<Rightarrow> path \<Rightarrow> bool" where
  "is_file fs p = (fs p \<noteq> None)"

text \<open>
  The decimal text of an integer (\<open>str_int\<close>), and the conversion of an f-string
  (\<open>format_int\<close>). CPython bounds the conversions between \<open>int\<close> and decimal text: since
  version 3.11, and in the security releases of 3.7 to 3.10, formatting an integer of
  more than \<open>sys.int_info.default_max_str_digits = 4300\<close> digits raises \<open>ValueError\<close>,
  and so does \<open>int(text)\<close> on a text with more than that many digits. The sign and the
  underscores are not counted; leading zeros are.
\<close>

definition MAX_STR_DIGITS :: nat where
  "MAX_STR_DIGITS = 4300"

definition digit_char :: "nat \<Rightarrow> char" where
  "digit_char d = char_of (48 + d)"

function str_nat :: "nat \<Rightarrow> string" where
  "str_nat n = (if n < 10 then [digit_char n] else str_nat (n div 10) @ [digit_char (n mod 10)])"
  by pat_completeness auto
termination
  by (relation "measure id") auto

definition str_int :: "int \<Rightarrow> string" where
  "str_int i = (if i < 0 then CHR ''-'' # str_nat (nat (- i)) else str_nat (nat i))"

definition format_int :: "int \<Rightarrow> error + string" where
  "format_int i =
     (if MAX_STR_DIGITS < length (str_nat (nat \<bar>i\<bar>)) then Inl ValueError
      else Inr (str_int i))"

text \<open>
  \<open>str.strip()\<close> and \<open>int(text)\<close> on ASCII text: surrounding whitespace is dropped, then an
  optional sign and decimal digits, where single underscores may separate digits.
  Anything else raises \<open>ValueError\<close>, and so do more than \<open>MAX_STR_DIGITS\<close> digits.
\<close>

definition is_space :: "char \<Rightarrow> bool" where
  "is_space c = (of_char c \<in> {9, 10, 11, 12, 13, 28, 29, 30, 31, 32 :: nat})"

definition strip :: "string \<Rightarrow> string" where
  "strip s = rev (dropWhile is_space (rev (dropWhile is_space s)))"

definition is_digit :: "char \<Rightarrow> bool" where
  "is_digit c = (48 \<le> (of_char c :: nat) \<and> (of_char c :: nat) \<le> 57)"

definition digit_value :: "char \<Rightarrow> nat" where
  "digit_value c = of_char c - 48"

fun digits_value :: "nat \<Rightarrow> string \<Rightarrow> nat option" where
  "digits_value acc [] = Some acc"
| "digits_value acc (c # cs) =
     (if is_digit c then digits_value (10 * acc + digit_value c) cs
      else if c = CHR ''_'' then
        (case cs of
           [] \<Rightarrow> None
         | d # ds \<Rightarrow> if is_digit d then digits_value (10 * acc + digit_value d) ds else None)
      else None)"

text \<open>The value of a string of decimal digits, read after the digits of value \<open>acc\<close>.\<close>

definition dec_value :: "nat \<Rightarrow> string \<Rightarrow> nat" where
  "dec_value acc ds = foldl (\<lambda>a c. 10 * a + digit_value c) acc ds"

definition parse_nat :: "string \<Rightarrow> nat option" where
  "parse_nat s =
     (case s of
        [] \<Rightarrow> None
      | c # cs \<Rightarrow> if is_digit c then digits_value (digit_value c) cs else None)"

definition int_of_str :: "string \<Rightarrow> error + int" where
  "int_of_str s =
     (let t = strip s;
          (negative, ds) = (case t of
                              c # cs \<Rightarrow> if c = CHR ''-'' then (True, cs)
                                        else if c = CHR ''+'' then (False, cs)
                                        else (False, t)
                            | [] \<Rightarrow> (False, t))
      in case parse_nat ds of
           None \<Rightarrow> Inl ValueError
         | Some n \<Rightarrow>
             if MAX_STR_DIGITS < length (filter is_digit ds) then Inl ValueError
             else Inr (if negative then - int n else int n))"

section \<open>The metadata store\<close>

definition newline :: char where
  "newline = CHR 0x0A"

text \<open>
  \<open>save_count\<close>: \<open>path.open("wt")\<close> creates or truncates the file, then the f-string is
  evaluated and written. When the formatting raises, the file has been opened already
  and is left empty. The result is the file system and the exception raised, if any.
\<close>

definition save_count ::
    "(path \<rightharpoonup> string) \<Rightarrow> path \<Rightarrow> int \<Rightarrow> (path \<rightharpoonup> string) \<times> error option" where
  "save_count fs p count =
     (case format_int count of
        Inl e \<Rightarrow> (fs(p \<mapsto> []), Some e)
      | Inr text \<Rightarrow> (fs(p \<mapsto> text @ [newline]), None))"

definition load_count :: "(path \<rightharpoonup> string) \<Rightarrow> path \<Rightarrow> error + int" where
  "load_count fs p =
     (case fs p of
        None \<Rightarrow> Inl CouldNotLoadData
      | Some text \<Rightarrow> int_of_str (strip text))"

text \<open>
  \<open>json.load\<close> belongs to the standard library and is a parameter: the value of a text,
  or \<open>None\<close> where it raises \<open>JSONDecodeError\<close>.
\<close>

definition load_names :: "(string \<Rightarrow> 'v option) \<Rightarrow> (path \<rightharpoonup> string) \<Rightarrow> path \<Rightarrow> error + 'v" where
  "load_names json_load fs p =
     (case fs p of
        None \<Rightarrow> Inl CouldNotLoadData
      | Some text \<Rightarrow> (case json_load text of None \<Rightarrow> Inl JSONDecodeError | Some v \<Rightarrow> Inr v))"

text \<open>
  The two file-backed metadata storages. Each is its \<open>path\<close> attribute, the directory
  that holds its files. The partition numbers in file names, here and in
  \<open>get_edges_file\<close>, are formatted by \<open>str_int\<close>: the digit limit of the interpreter is
  modelled for the counts, not for the partition numbers.
\<close>

definition FileEntityStorage_get_count_file :: "path \<Rightarrow> string \<Rightarrow> int \<Rightarrow> path" where
  "FileEntityStorage_get_count_file self_path entity_name part =
     joinpath self_path (''entity_count_'' @ entity_name @ ''_'' @ str_int part @ ''.txt'')"

definition FileEntityStorage_has_count :: "(path \<rightharpoonup> string) \<Rightarrow> path \<Rightarrow> string \<Rightarrow> int \<Rightarrow> bool" where
  "FileEntityStorage_has_count fs self_path entity_name part =
     is_file fs (FileEntityStorage_get_count_file self_path entity_name part)"

definition FileEntityStorage_save_count ::
    "(path \<rightharpoonup> string) \<Rightarrow> path \<Rightarrow> string \<Rightarrow> int \<Rightarrow> int \<Rightarrow>
     (path \<rightharpoonup> string) \<times> error option" where
  "FileEntityStorage_save_count fs self_path entity_name part count =
     save_count fs (FileEntityStorage_get_count_file self_path entity_name part) count"

definition FileEntityStorage_load_count :: "(path \<rightharpoonup> string) \<Rightarrow> path \<Rightarrow> string \<Rightarrow> int \<Rightarrow> error + int" where
  "FileEntityStorage_load_count fs self_path entity_name part =
     load_count fs (FileEntityStorage_get_count_file self_path entity_name part)"

definition FileRelationTypeStorage_get_count_file :: "path \<Rightarrow> path" where
  "FileRelationTypeStorage_get_count_file self_path = joinpath self_path ''dynamic_rel_count.txt''"

definition FileRelationTypeStorage_has_count :: "(path \<rightharpoonup> string) \<Rightarrow> path \<Rightarrow> bool" where
  "FileRelationTypeStorage_has_count fs self_path =
     is_file fs (FileRelationTypeStorage_get_count_file self_path)"

definition FileRelationTypeStorage_save_count ::
    "(path \<rightharpoonup> string) \<Rightarrow> path \<Rightarrow> int \<Rightarrow> (path \<rightharpoonup> string) \<times> error option" where
  "FileRelationTypeStorage_save_count fs self_path count =
     save_count fs (FileRelationTypeStorage_get_count_file self_path) count"

definition FileRelationTypeStorage_load_count :: "(path \<rightharpoonup> string) \<Rightarrow> path \<Rightarrow> error + int" where
  "FileRelationTypeStorage_load_count fs self_path =
     load_count fs (FileRelationTypeStorage_get_count_file self_path)"

section \<open>True division of integers\<close>

text \<open>
  Python's \<open>a / b\<close> on two integers is the exact quotient rounded to the nearest IEEE 754
  binary64 value, ties to even; it raises \<open>ZeroDivisionError\<close> for \<open>b = 0\<close> and
  \<open>OverflowError\<close> when the rounded quotient has no finite binary64 value. A float is
  modelled by its value, a rational. \<open>ilog2 x\<close> is the exponent of a positive \<open>x\<close>:
  \<open>2^e \<le> x < 2^(e+1)\<close>. A binary64 value with exponent \<open>e\<close> is a multiple of \<open>2^(e-52)\<close>,
  and the exponent of a subnormal value is \<open>-1022\<close>.
\<close>

definition round_half_even :: "rat \<Rightarrow> int" where
  "round_half_even x =
     (let f = \<lfloor>x\<rfloor>; d = x - of_int f
      in if d < 1 / 2 then f
         else if d > 1 / 2 then f + 1
         else if even f then f else f + 1)"

definition ilog2 :: "rat \<Rightarrow> int" where
  "ilog2 x =
     (let (a, b) = quotient_of x;
          d = bitlen a - bitlen b
      in if power_int 2 d \<le> x then d else d - 1)"

definition float_round :: "rat \<Rightarrow> rat" where
  "float_round x =
     (if x = 0 then 0
      else
        let e = max (ilog2 \<bar>x\<bar>) (- 1022);
            u = power_int 2 (e - 52)
        in sgn x * of_int (round_half_even (\<bar>x\<bar> / u)) * u)"

definition py_truediv :: "int \<Rightarrow> int \<Rightarrow> error + rat" where
  "py_truediv a b =
     (if b = 0 then Inl ZeroDivisionError
      else
        let r = float_round (of_int a / of_int b)
        in if \<bar>r\<bar> \<ge> 2 ^ 1024 then Inl OverflowError else Inr r)"

text \<open>\<open>int(x)\<close> of a float truncates towards zero.\<close>

definition py_int :: "rat \<Rightarrow> int" where
  "py_int r = (if r \<ge> 0 then \<lfloor>r\<rfloor> else \<lceil>r\<rceil>)"

section \<open>Chunk boundaries\<close>

text \<open>
  The index range of chunk \<open>chunk_idx\<close> of \<open>num_chunks\<close> over \<open>num_edges\<close> edges, as
  \<open>load_chunk_of_edges\<close> computes it: \<open>begin = int(chunk_idx * num_edges / num_chunks)\<close> and
  \<open>end = int((chunk_idx + 1) * num_edges / num_chunks)\<close>, with an exact integer product,
  a true division and a truncation.
\<close>

definition chunk_bounds :: "int \<Rightarrow> int \<Rightarrow> int \<Rightarrow> error + (int \<times> int)" where
  "chunk_bounds num_edges chunk_idx num_chunks =
     and_then (py_truediv (chunk_idx * num_edges) num_chunks) (\<lambda>q1.
     and_then (py_truediv ((chunk_idx + 1) * num_edges) num_chunks) (\<lambda>q2.
     Inr (py_int q1, py_int q2)))"

text \<open>
  Boundary \<open>j\<close> of the chunks, \<open>int(j * num_edges / num_chunks)\<close> where no exception is
  raised: chunk \<open>i\<close> runs from boundary \<open>i\<close> to boundary \<open>i + 1\<close>.
\<close>

definition boundary :: "int \<Rightarrow> int \<Rightarrow> int \<Rightarrow> int" where
  "boundary num_edges num_chunks j = py_int (float_round (of_int (j * num_edges) / of_int num_chunks))"

text \<open>The set of indices of a chunk; empty where the computation raises.\<close>

definition chunk_range :: "int \<Rightarrow> int \<Rightarrow> int \<Rightarrow> int set" where
  "chunk_range num_edges chunk_idx num_chunks =
     (case chunk_bounds num_edges chunk_idx num_chunks of
        Inl e \<Rightarrow> {}
      | Inr (b, e) \<Rightarrow> {b ..< e})"

section \<open>FileEdgeStorage\<close>

text \<open>
  The storage is its \<open>path\<close> attribute, a resolved directory. The file system of shards
  maps the paths of the HDF5 files to their contents. \<open>str_path\<close> is the text of an
  absolute path in a message.
\<close>

definition str_path :: "path \<Rightarrow> string" where
  "str_path p = concat (map (\<lambda>part. CHR ''/'' # part) p)"

definition get_edges_file :: "path \<Rightarrow> int \<Rightarrow> int \<Rightarrow> path" where
  "get_edges_file self_path lhs_p rhs_p =
     joinpath self_path (''edges_'' @ str_int lhs_p @ ''_'' @ str_int rhs_p @ ''.h5'')"

definition has_edges :: "(path \<rightharpoonup> h5file) \<Rightarrow> path \<Rightarrow> int \<Rightarrow> int \<Rightarrow> bool" where
  "has_edges fs self_path lhs_p rhs_p = is_file fs (get_edges_file self_path lhs_p rhs_p)"

text \<open>
  \<open>load_chunk_of_edges\<close>: the two fatal errors, the three required columns, the chunk
  bounds, the three tensors of \<open>chunk_size\<close> elements (read only when \<open>chunk_size > 0\<close>),
  the two ragged columns.
\<close>

definition read_column :: "int list \<Rightarrow> int \<Rightarrow> int \<Rightarrow> int \<Rightarrow> error + int list" where
  "read_column ds chunk_size begin end =
     (if chunk_size > 0 then read_direct ds chunk_size begin end
      else Inr [])"

definition load_chunk_of_edges ::
    "(path \<rightharpoonup> h5file) \<Rightarrow> path \<Rightarrow> int \<Rightarrow> int \<Rightarrow> int \<Rightarrow> int \<Rightarrow> error + EdgeList" where
  "load_chunk_of_edges fs self_path lhs_p rhs_p chunk_idx num_chunks =
     (let file_path = get_edges_file self_path lhs_p rhs_p
      in case fs file_path of
           None \<Rightarrow> Inl (RuntimeError (str_path file_path @ '' does not exist''))
         | Some f \<Rightarrow>
             if attrs f FORMAT_VERSION_ATTR \<noteq> Some FORMAT_VERSION
             then Inl (RuntimeError (''Version mismatch in edge file '' @ str_path file_path))
             else
               (case columns f ''lhs'' of None \<Rightarrow> Inl (KeyError ''lhs'') | Some lhs_ds \<Rightarrow>
               (case columns f ''rhs'' of None \<Rightarrow> Inl (KeyError ''rhs'') | Some rhs_ds \<Rightarrow>
               (case columns f ''rel'' of None \<Rightarrow> Inl (KeyError ''rel'') | Some rel_ds \<Rightarrow>
                 (let num_edges = int (length rel_ds)
                  in and_then (chunk_bounds num_edges chunk_idx num_chunks) (\<lambda>(begin, end).
                     let chunk_size = end - begin
                     in if chunk_size < 0 then Inl (RuntimeError negative_dimension)
                        else
                          and_then (read_column lhs_ds chunk_size begin end) (\<lambda>lhs_t.
                          and_then (read_column rhs_ds chunk_size begin end) (\<lambda>rhs_t.
                          and_then (read_column rel_ds chunk_size begin end) (\<lambda>rel_t.
                          and_then (read_dynamic f ''lhsd'' begin end) (\<lambda>lhsd.
                          and_then (read_dynamic f ''rhsd'' begin end) (\<lambda>rhsd.
                            Inr \<lparr> lhs = \<lparr> tensor = lhs_t, tensor_list = lhsd \<rparr>,
                                  rhs = \<lparr> tensor = rhs_t, tensor_list = rhsd \<rparr>,
                                  rel = rel_t \<rparr>)))))))))))"


definition load_edges :: "(path \<rightharpoonup> h5file) \<Rightarrow> path \<Rightarrow> int \<Rightarrow> int \<Rightarrow> error + EdgeList" where
  "load_edges fs self_path lhs_p rhs_p = load_chunk_of_edges fs self_path lhs_p rhs_p 0 1"

text \<open>
  A well-formed shard: the three columns \<open>lhs\<close>, \<open>rhs\<close>, \<open>rel\<close> with one entry an edge,
  at most \<open>2^53\<close> edges, and each ragged column either absent (one of its two datasets
  is missing) or holding exactly one record an edge: the offsets dataset is the running
  totals of the record lengths from 0, one entry more than there are edges, and the
  data dataset is the records one after the other, fewer than \<open>2^63\<close> values. This is
  not every shard the appender writes: \<open>append_edges\<close> skips the ragged append of an edge
  list whose ragged data is empty, so a session with edge lists of both kinds writes
  fewer records than edges (lemma \<open>mixed_session_shard\<close>).
\<close>

definition dynamic_ok :: "h5file \<Rightarrow> string \<Rightarrow> nat \<Rightarrow> bool" where
  "dynamic_ok f key n =
     (columns f (key @ ''_offsets'') = None \<or> columns f (key @ ''_data'') = None \<or>
      (\<exists>R. length R = n \<and> int (length (concat R)) < 2 ^ 63 \<and>
           columns f (key @ ''_offsets'') = Some (offsets_from 0 R) \<and>
           columns f (key @ ''_data'') = Some (concat R)))"

definition valid_shard :: "h5file \<Rightarrow> bool" where
  "valid_shard f =
     (\<exists>lhs_ds rhs_ds rel_ds.
        columns f ''lhs'' = Some lhs_ds \<and> columns f ''rhs'' = Some rhs_ds \<and>
        columns f ''rel'' = Some rel_ds \<and>
        length lhs_ds = length rel_ds \<and> length rhs_ds = length rel_ds \<and>
        int (length rel_ds) \<le> 2 ^ 53 \<and>
        dynamic_ok f ''lhsd'' (length rel_ds) \<and> dynamic_ok f ''rhsd'' (length rel_ds))"

text \<open>
  \<open>PurePath.stem\<close> and \<open>PurePath.suffix\<close> of a file name: the name is split at its last
  dot, unless that dot is the first or the last character or there is none.
\<close>

definition rfind_dot :: "string \<Rightarrow> int" where
  "rfind_dot name =
     (if CHR ''.'' \<in> set name
      then int (length name) - 1 - int (length (takeWhile (\<lambda>c. c \<noteq> CHR ''.'') (rev name)))
      else - 1)"

definition path_suffix :: "string \<Rightarrow> string" where
  "path_suffix name =
     (let i = rfind_dot name
      in if 0 < i \<and> i < int (length name) - 1 then drop (nat i) name else [])"

definition path_stem :: "string \<Rightarrow> string" where
  "path_stem name =
     (let i = rfind_dot name
      in if 0 < i \<and> i < int (length name) - 1 then take (nat i) name else name)"

definition tmp_path_of :: "path \<Rightarrow> path" where
  "tmp_path_of file_path =
     joinpath (butlast file_path)
       (path_stem (last file_path) @ ''.tmp'' @ path_suffix (last file_path))"

text \<open>
  \<open>save_edges_by_appending\<close> is a context manager. Its body, the code of the
  \<open>with\<close> statement that uses it, is a parameter: given the appender, it leaves the
  appender in some state and either completes or raises. The steps: a temporary file
  that exists is unlinked; the file is created and opened; the appender is made on it;
  the version attribute is set; the body runs. Whether or not the body raised,
  \<open>__exit__\<close> flushes the writers and closes the file. Only when nothing was raised is
  the temporary file renamed to the final path; \<open>rename\<close> replaces a file that is there.
\<close>

definition session_start :: FileEdgeAppender where
  "session_start =
     (let appender = FileEdgeAppender_init empty_h5file
      in appender\<lparr> hf := (hf appender)\<lparr> attrs := (attrs (hf appender))(FORMAT_VERSION_ATTR \<mapsto> FORMAT_VERSION) \<rparr> \<rparr>)"

definition save_edges_by_appending ::
    "(path \<rightharpoonup> h5file) \<Rightarrow> path \<Rightarrow> int \<Rightarrow> int \<Rightarrow>
     (FileEdgeAppender \<Rightarrow> FileEdgeAppender \<times> error option) \<Rightarrow>
     (path \<rightharpoonup> h5file) \<times> error option" where
  "save_edges_by_appending fs self_path lhs_p rhs_p body =
     (let file_path = get_edges_file self_path lhs_p rhs_p;
          tmp_file_path = tmp_path_of file_path;
          fs1 = (if is_file fs tmp_file_path then fs(tmp_file_path := None) else fs);
          fs2 = fs1(tmp_file_path \<mapsto> empty_h5file);
          (appender, raised) = body session_start
      in case FileEdgeAppender_exit appender of
           Inl e \<Rightarrow> (fs2, Some e)
         | Inr f \<Rightarrow>
             (let fs3 = fs2(tmp_file_path \<mapsto> f)
              in (case raised of
                    Some e \<Rightarrow> (fs3, Some e)
                  | None \<Rightarrow> (fs3(tmp_file_path := None, file_path \<mapsto> f), None))))"

text \<open>\<open>save_edges\<close>: one \<open>append_edges\<close> in a session.\<close>

definition save_edges :: "(path \<rightharpoonup> h5file) \<Rightarrow> path \<Rightarrow> int \<Rightarrow> int \<Rightarrow> EdgeList \<Rightarrow> (path \<rightharpoonup> h5file) \<times> error option" where
  "save_edges fs self_path lhs_p rhs_p edges =
     save_edges_by_appending fs self_path lhs_p rhs_p
       (\<lambda>appender. case append_edges appender edges of
                      Inl e \<Rightarrow> (appender, Some e)
                    | Inr appender' \<Rightarrow> (appender', None))"

section \<open>The buffered column writer: proofs\<close>

declare append_loop.simps [simp del]

lemma slice_from_0: "slice xs 0 n = take (nat n) xs"
  by (simp add: slice_def)

lemma length_slice:
  "0 \<le> i \<Longrightarrow> i \<le> j \<Longrightarrow> j \<le> int (length xs) \<Longrightarrow> length (slice xs i j) = nat (j - i)"
  by (simp add: slice_def)

lemma slice_to_end:
  "0 \<le> i \<Longrightarrow> i \<le> int (length xs) \<Longrightarrow> slice xs i (i + (int (length xs) - i)) = drop (nat i) xs"
  by (simp add: slice_def)

lemma slice_append_drop:
  assumes "0 \<le> i" "0 \<le> n"
  shows "slice xs i (i + n) @ drop (nat (i + n)) xs = drop (nat i) xs"
proof -
  have "nat (i + n) = nat n + nat i" using assms by (simp add: nat_add_distrib)
  then have "drop (nat (i + n)) xs = drop (nat n) (drop (nat i) xs)" by simp
  moreover have "take (nat n) (drop (nat i) xs) @ drop (nat n) (drop (nat i) xs) = drop (nat i) xs"
    by (rule append_take_drop_id)
  ultimately show ?thesis by (simp add: slice_def del: drop_drop)
qed

lemma length_set_slice:
  "nat i + length src \<le> length xs \<Longrightarrow> length (set_slice xs i src) = length xs"
  by (simp add: set_slice_def)

lemma take_set_slice:
  "nat i + length src \<le> length xs \<Longrightarrow>
   take (nat i + length src) (set_slice xs i src) = take (nat i) xs @ src"
  by (simp add: set_slice_def)

lemma BUFFER_SIZE_pos: "0 < BUFFER_SIZE"
  by (simp add: BUFFER_SIZE_def)

lemma flush_buffer_full:
  "buffer_offset s = BUFFER_SIZE \<Longrightarrow>
   flush_buffer s False = Inr (s\<lparr> dataset := dataset s @ slice (buffer s) 0 (buffer_offset s), buffer_offset := 0 \<rparr>)"
  using BUFFER_SIZE_pos by (simp add: flush_buffer_def)

text \<open>One copy into the buffer: the buffered values grow by the copied slice.\<close>

lemma fill_step:
  assumes ok: "buffer_ok s" and n0: "0 \<le> n" and fit: "buffer_offset s + n \<le> BUFFER_SIZE"
    and len: "int (length src) = n"
  defines "s1 \<equiv> s\<lparr> buffer := set_slice (buffer s) (buffer_offset s) src,
                     buffer_offset := buffer_offset s + n \<rparr>"
  shows "buffer_ok s1" and "pending s1 = pending s @ src"
proof -
  have lb: "length (buffer s) = nat BUFFER_SIZE" and o0: "0 \<le> buffer_offset s"
    using ok by (auto simp: buffer_ok_def)
  have ls: "length src = nat n" using len by auto
  have room: "nat (buffer_offset s) + length src \<le> length (buffer s)"
    using lb ls o0 n0 fit by linarith
  have lb1: "length (buffer s1) = length (buffer s)"
    using length_set_slice[OF room] by (simp add: s1_def)
  show "buffer_ok s1"
    using lb1 ok n0 fit by (simp add: buffer_ok_def s1_def)
  have "nat (buffer_offset s + n) = nat (buffer_offset s) + length src"
    using o0 n0 ls by (simp add: nat_add_distrib)
  then have "pending s1 = take (nat (buffer_offset s) + length src) (set_slice (buffer s) (buffer_offset s) src)"
    by (simp add: pending_def s1_def slice_from_0)
  also have "\<dots> = take (nat (buffer_offset s)) (buffer s) @ src"
    by (rule take_set_slice[OF room])
  finally show "pending s1 = pending s @ src"
    by (simp add: pending_def slice_from_0)
qed

lemma append_loop_spec:
  "buffer_ok s \<Longrightarrow> 0 \<le> tensor_offset \<Longrightarrow> tensor_offset \<le> int (length xs) \<Longrightarrow>
   \<exists>s' k. append_loop xs tensor_offset s = Inr s' \<and> buffer_ok s' \<and> buffer_offset s' < BUFFER_SIZE \<and>
        dataset s' @ pending s' = dataset s @ pending s @ drop (nat tensor_offset) xs \<and>
        total_data s' = total_data s \<and> dataset_name s' = dataset_name s \<and>
        int (length (dataset s')) = int (length (dataset s)) + int k * BUFFER_SIZE"
proof (induction xs tensor_offset s rule: append_loop.induct)
  case (1 xs tensor_offset s)
  define tensor_left where "tensor_left = int (length xs) - tensor_offset"
  define buffer_left where "buffer_left = BUFFER_SIZE - buffer_offset s"
  have ok: "buffer_ok s" by fact
  have bl0: "0 \<le> buffer_left" using ok by (simp add: buffer_left_def buffer_ok_def)
  have tl0: "0 \<le> tensor_left" using 1(4) by (simp add: tensor_left_def)
  show ?case
  proof (cases "tensor_left \<ge> buffer_left")
    case True
    define src where "src = slice xs tensor_offset (tensor_offset + buffer_left)"
    define s1 where "s1 = s\<lparr> buffer := set_slice (buffer s) (buffer_offset s) src,
                       buffer_offset := buffer_offset s + buffer_left \<rparr>"
    define s2 where "s2 = s1\<lparr> dataset := dataset s1 @ slice (buffer s1) 0 (buffer_offset s1), buffer_offset := 0 \<rparr>"
    have len_src: "int (length src) = buffer_left"
      unfolding src_def using length_slice[of tensor_offset "tensor_offset + buffer_left" xs] True 1(3) bl0
      by (simp add: tensor_left_def)
    have fit: "buffer_offset s + buffer_left \<le> BUFFER_SIZE" by (simp add: buffer_left_def)
    have ok1: "buffer_ok s1" and p1: "pending s1 = pending s @ src"
      unfolding s1_def by (rule fill_step[OF ok bl0 fit len_src])+
    have off1: "buffer_offset s1 = BUFFER_SIZE" by (simp add: s1_def buffer_left_def)
    have fl: "flush_buffer s1 False = Inr s2"
      unfolding s2_def by (rule flush_buffer_full[OF off1])
    have ok2: "buffer_ok s2"
      using ok1 BUFFER_SIZE_pos by (simp add: s2_def buffer_ok_def)
    have d2: "dataset s2 = dataset s @ pending s @ src"
      using p1 by (simp add: s2_def pending_def) (simp add: s1_def)
    have p2: "pending s2 = []" by (simp add: pending_def s2_def slice_def)
    have len2: "int (length (dataset s2)) = int (length (dataset s)) + BUFFER_SIZE"
    proof -
      have "length (pending s1) = nat BUFFER_SIZE"
        using ok1 off1 by (auto simp: pending_def slice_from_0 buffer_ok_def)
      moreover have "dataset s2 = dataset s @ pending s1" by (simp add: s2_def pending_def s1_def)
      ultimately show ?thesis using BUFFER_SIZE_pos by simp
    qed
    have IH: "\<exists>s' k. append_loop xs (tensor_offset + buffer_left) s2 = Inr s' \<and> buffer_ok s' \<and> buffer_offset s' < BUFFER_SIZE \<and>
        dataset s' @ pending s' = dataset s2 @ pending s2 @ drop (nat (tensor_offset + buffer_left)) xs \<and>
        total_data s' = total_data s2 \<and> dataset_name s' = dataset_name s2 \<and>
        int (length (dataset s')) = int (length (dataset s2)) + int k * BUFFER_SIZE"
    proof (rule 1(1)[OF tensor_left_def buffer_left_def True _ ok2])
      show "flush_buffer (s\<lparr>buffer := set_slice (buffer s) (buffer_offset s)
                  (slice xs tensor_offset (tensor_offset + buffer_left)),
             buffer_offset := buffer_offset s + buffer_left\<rparr>) False = Inr s2"
        using fl by (simp add: s1_def src_def)
      show "0 \<le> tensor_offset + buffer_left" using 1(3) bl0 by simp
      show "tensor_offset + buffer_left \<le> int (length xs)" using True by (simp add: tensor_left_def)
    qed
    then obtain s' k where s': "append_loop xs (tensor_offset + buffer_left) s2 = Inr s'" "buffer_ok s'" "buffer_offset s' < BUFFER_SIZE"
        "dataset s' @ pending s' = dataset s2 @ pending s2 @ drop (nat (tensor_offset + buffer_left)) xs"
        "total_data s' = total_data s2" "dataset_name s' = dataset_name s2"
        "int (length (dataset s')) = int (length (dataset s2)) + int k * BUFFER_SIZE" by blast
    have run: "append_loop xs tensor_offset s = Inr s'"
      using True fl s'(1)
      by (subst append_loop.simps) (simp add: Let_def tensor_left_def buffer_left_def s1_def src_def)
    have content: "dataset s' @ pending s' = dataset s @ pending s @ drop (nat tensor_offset) xs"
      using s'(4) d2 p2 slice_append_drop[OF 1(3) bl0, of xs] by (simp add: src_def)
    have len': "int (length (dataset s')) = int (length (dataset s)) + int (Suc k) * BUFFER_SIZE"
      using s'(7) len2 by (simp add: algebra_simps)
    have "total_data s' = total_data s" "dataset_name s' = dataset_name s"
      using s'(5,6) by (simp_all add: s2_def s1_def)
    with run s'(2,3) content len' show ?thesis by blast
  next
    case False
    define src where "src = slice xs tensor_offset (tensor_offset + tensor_left)"
    define s1 where "s1 = s\<lparr> buffer := set_slice (buffer s) (buffer_offset s) src,
                    buffer_offset := buffer_offset s + tensor_left \<rparr>"
    have run: "append_loop xs tensor_offset s = Inr s1"
      using False
      by (subst append_loop.simps) (simp add: Let_def tensor_left_def buffer_left_def s1_def src_def)
    have src: "src = drop (nat tensor_offset) xs"
      unfolding src_def tensor_left_def by (rule slice_to_end[OF 1(3,4)])
    have len_src: "int (length src) = tensor_left"
      using 1(3,4) by (simp add: src tensor_left_def)
    have fit: "buffer_offset s + tensor_left \<le> BUFFER_SIZE" using False by (simp add: buffer_left_def)
    have ok1: "buffer_ok s1" and p1: "pending s1 = pending s @ src"
      unfolding s1_def by (rule fill_step[OF ok tl0 fit len_src])+
    have lt: "buffer_offset s1 < BUFFER_SIZE" using False by (simp add: s1_def buffer_left_def)
    have "int (length (dataset s1)) = int (length (dataset s)) + int 0 * BUFFER_SIZE"
      by (simp add: s1_def)
    moreover have "dataset s1 @ pending s1 = dataset s @ pending s @ drop (nat tensor_offset) xs"
      using p1 src by (simp add: s1_def)
    moreover have "total_data s1 = total_data s" "dataset_name s1 = dataset_name s"
      by (simp_all add: s1_def)
    ultimately show ?thesis using run ok1 lt by blast
  qed
qed

lemma length_pending: "buffer_ok s \<Longrightarrow> int (length (pending s)) = buffer_offset s"
  by (auto simp: pending_def slice_from_0 buffer_ok_def)

lemma append_spec:
  assumes "buffer_ok s"
  shows "\<exists>s' k. append s xs = Inr s' \<and> buffer_ok s' \<and> buffer_offset s' < BUFFER_SIZE \<and>
        dataset s' @ pending s' = dataset s @ pending s @ xs \<and>
        total_data s' = total_data s + int (length xs) \<and> dataset_name s' = dataset_name s \<and>
        int (length (dataset s')) = int (length (dataset s)) + int k * BUFFER_SIZE"
proof -
  from append_loop_spec[OF assms, of 0 xs]
  obtain s' k where s': "append_loop xs 0 s = Inr s'" "buffer_ok s'" "buffer_offset s' < BUFFER_SIZE"
        "dataset s' @ pending s' = dataset s @ pending s @ xs"
        "total_data s' = total_data s" "dataset_name s' = dataset_name s"
        "int (length (dataset s')) = int (length (dataset s)) + int k * BUFFER_SIZE" by auto
  define s'' where "s'' = s'\<lparr> total_data := total_data s' + int (length xs) \<rparr>"
  have "append s xs = Inr s''" by (simp add: append_def s'(1) s''_def)
  moreover have "buffer_ok s''" using s'(2) by (simp add: buffer_ok_def s''_def)
  moreover have "pending s'' = pending s'" by (simp add: pending_def s''_def)
  ultimately show ?thesis using s' by (intro exI[of _ s''] exI[of _ k]) (simp add: s''_def)
qed

lemma dataset_invariant_buffer_ok: "dataset_invariant s \<Longrightarrow> buffer_ok s"
  by (simp add: dataset_invariant_def buffer_ok_def)

lemma dataset_invariant_init: "dataset_invariant (BufferedDataset_init name)"
  by (simp add: dataset_invariant_def BufferedDataset_init_def BUFFER_SIZE_def)

lemma dataset_invariant_append:
  assumes "dataset_invariant s"
  shows "\<exists>s'. append s xs = Inr s' \<and> dataset_invariant s' \<and>
          dataset s' @ pending s' = dataset s @ pending s @ xs \<and> dataset_name s' = dataset_name s"
proof -
  have ok: "buffer_ok s" using assms by (rule dataset_invariant_buffer_ok)
  from append_spec[OF ok, of xs]
  obtain s' k where s': "append s xs = Inr s'" "buffer_ok s'" "buffer_offset s' < BUFFER_SIZE"
        "dataset s' @ pending s' = dataset s @ pending s @ xs"
        "total_data s' = total_data s + int (length xs)" "dataset_name s' = dataset_name s"
        "int (length (dataset s')) = int (length (dataset s)) + int k * BUFFER_SIZE" by blast
  have "int (length (dataset s' @ pending s')) = int (length (dataset s @ pending s @ xs))"
    using s'(4) by simp
  then have sum: "int (length (dataset s')) + buffer_offset s' = total_data s'"
    using length_pending[OF ok] length_pending[OF s'(2)] assms s'(5)
    by (simp add: dataset_invariant_def)
  have "BUFFER_SIZE dvd int (length (dataset s'))"
    using assms s'(7) by (simp add: dataset_invariant_def)
  then have "dataset_invariant s'"
    using s'(2,3) sum by (simp add: dataset_invariant_def buffer_ok_def)
  then show ?thesis using s'(1,4,6) by blast
qed

lemma append_all_spec:
  "dataset_invariant s \<Longrightarrow>
   \<exists>s'. append_all s ts = Inr s' \<and> dataset_invariant s' \<and>
        dataset s' @ pending s' = dataset s @ pending s @ concat ts \<and> dataset_name s' = dataset_name s"
proof (induction ts arbitrary: s)
  case Nil
  then show ?case by simp
next
  case (Cons t ts)
  from dataset_invariant_append[OF Cons.prems, of t]
  obtain s1 where s1: "append s t = Inr s1" "dataset_invariant s1"
     "dataset s1 @ pending s1 = dataset s @ pending s @ t" "dataset_name s1 = dataset_name s" by blast
  from Cons.IH[OF s1(2)]
  obtain s' where s': "append_all s1 ts = Inr s'" "dataset_invariant s'"
     "dataset s' @ pending s' = dataset s1 @ pending s1 @ concat ts" "dataset_name s' = dataset_name s1" by blast
  have "append_all s (t # ts) = Inr s'" using s1(1) s'(1) by simp
  moreover have "dataset s' @ pending s' = dataset s @ pending s @ concat (t # ts)"
    using s'(3) s1(3) by simp
  ultimately show ?case using s'(2,4) s1(4) by auto
qed

lemma flush_buffer_last:
  "\<exists>s'. flush_buffer s True = Inr s' \<and> dataset s' = dataset s @ pending s \<and>
        total_data s' = total_data s \<and> buffer_offset s' = 0 \<and> dataset_name s' = dataset_name s"
  by (simp add: flush_buffer_def pending_def slice_def)

lemma pending_init: "pending (BufferedDataset_init name) = []"
  by (simp add: pending_def BufferedDataset_init_def slice_def)

text \<open>
  Claim C2. Whatever tensors are appended to a fresh writer, in whatever chunk sizes, the
  appends succeed, and after the final flush (\<open>flush_buffer\<close> with \<open>_last = True\<close>) the
  on-disk column is the concatenation of the appended tensors in order; its length is
  \<open>total_data\<close>, the number of values appended.
\<close>

theorem buffered_round_trip:
  "\<exists>s s'. append_all (BufferedDataset_init name) ts = Inr s \<and>
          flush_buffer s True = Inr s' \<and>
          dataset s' = concat ts \<and>
          int (length (dataset s')) = total_data s' \<and>
          total_data s' = int (length (concat ts))"
proof -
  from append_all_spec[OF dataset_invariant_init, of name ts]
  obtain s where s: "append_all (BufferedDataset_init name) ts = Inr s" "dataset_invariant s"
    "dataset s @ pending s = dataset (BufferedDataset_init name) @ pending (BufferedDataset_init name) @ concat ts"
    by blast
  from flush_buffer_last[of s]
  obtain s' where s': "flush_buffer s True = Inr s'" "dataset s' = dataset s @ pending s"
    "total_data s' = total_data s" by blast
  have content: "dataset s' = concat ts"
    using s(3) s'(2) by (simp add: pending_init) (simp add: BufferedDataset_init_def)
  have "int (length (dataset s @ pending s)) = total_data s"
    using s(2) length_pending[OF dataset_invariant_buffer_ok[OF s(2)]]
    by (simp add: dataset_invariant_def)
  then have "int (length (dataset s')) = total_data s'" using s'(2,3) by simp
  with s(1) s'(1) content show ?thesis by auto
qed

lemma append_loop_no_error: "append_loop xs tensor_offset s \<noteq> Inl e"
proof (induction xs tensor_offset s rule: append_loop.induct)
  case (1 xs tensor_offset s)
  define s1 where "s1 = s\<lparr> buffer := set_slice (buffer s) (buffer_offset s)
                                    (slice xs tensor_offset (tensor_offset + (BUFFER_SIZE - buffer_offset s))),
                       buffer_offset := buffer_offset s + (BUFFER_SIZE - buffer_offset s) \<rparr>"
  have off1: "buffer_offset s1 = BUFFER_SIZE" by (simp add: s1_def)
  show ?case
  proof (cases "int (length xs) - tensor_offset \<ge> BUFFER_SIZE - buffer_offset s")
    case True
    from flush_buffer_full[OF off1] obtain s2 where fl: "flush_buffer s1 False = Inr s2" by blast
    have "append_loop xs (tensor_offset + (BUFFER_SIZE - buffer_offset s)) s2 \<noteq> Inl e"
      by (rule 1[OF refl refl True]) (use fl in \<open>simp add: s1_def\<close>)
    then show ?thesis
      using True fl by (subst append_loop.simps) (simp add: Let_def s1_def)
  next
    case False
    then show ?thesis by (subst append_loop.simps) (simp add: Let_def)
  qed
qed

lemma append_no_error: "\<exists>s'. append s xs = Inr s'"
  using append_loop_no_error[of xs 0 s]
  by (cases "append_loop xs 0 s") (auto simp: append_def)

lemma append_all_no_error: "\<exists>s'. append_all s ts = Inr s'"
proof (induction ts arbitrary: s)
  case Nil
  show ?case by simp
next
  case (Cons t ts)
  obtain s1 where "append s t = Inr s1" using append_no_error by blast
  then show ?case using Cons.IH[of s1] by simp
qed

text \<open>
  Claim C8. A non-final \<open>flush_buffer\<close> fails its assertion exactly when the buffer is not
  at capacity. \<open>AssertionError\<close> is the only exception \<open>append\<close> could raise, and it comes
  from nowhere but that assertion; no sequence of appends, from any writer state, raises
  it: the state the loop hands to \<open>flush_buffer\<close>, after it has added
  \<open>BUFFER_SIZE - buffer_offset\<close> to \<open>buffer_offset\<close>, has \<open>buffer_offset = BUFFER_SIZE\<close>.
\<close>

theorem flush_assertion_unreachable:
  "(flush_buffer s False = Inl AssertionError) = (buffer_offset s \<noteq> BUFFER_SIZE) \<and>
   buffer_offset (s\<lparr> buffer := b, buffer_offset := buffer_offset s + (BUFFER_SIZE - buffer_offset s) \<rparr>)
     = BUFFER_SIZE \<and>
   flush_buffer (s\<lparr> buffer := b, buffer_offset := buffer_offset s + (BUFFER_SIZE - buffer_offset s) \<rparr>)
     False \<noteq> Inl AssertionError \<and>
   (\<exists>s'. append_all s0 ts = Inr s')"
  using append_all_no_error[of s0 ts] by (simp add: flush_buffer_def)

text \<open>
  Claim C9. The invariant \<open>dataset_invariant\<close> (the on-disk length plus \<open>buffer_offset\<close>
  is \<open>total_data\<close>, \<open>0 \<le> buffer_offset < BUFFER_SIZE\<close>, the on-disk length is a multiple
  of \<open>BUFFER_SIZE\<close>, and the buffer keeps its \<open>BUFFER_SIZE\<close> elements) holds of a new
  writer, and every \<open>append\<close> on a writer that satisfies it returns a writer that
  satisfies it.
\<close>

theorem buffered_dataset_invariant:
  "dataset_invariant (BufferedDataset_init name) \<and>
   (\<forall>s xs. dataset_invariant s \<longrightarrow> (\<exists>s'. append s xs = Inr s' \<and> dataset_invariant s'))"
  using dataset_invariant_init dataset_invariant_append by blast

theorem buffered_dataset_invariant_witness:
  "dataset_invariant (BufferedDataset_init ''rel'') \<and>
   (\<exists>s'. append (BufferedDataset_init ''rel'') [1, 2, 3] = Inr s' \<and> dataset_invariant s')"
proof -
  have h: "dataset_invariant (BufferedDataset_init ''rel'')"
    by (simp add: dataset_invariant_def BufferedDataset_init_def BUFFER_SIZE_def)
  show ?thesis using h buffered_dataset_invariant[of "''rel''"] by blast
qed

section \<open>The appender and the ragged columns: proofs\<close>

lemma and_then_Inr [simp]: "and_then (Inr x) f = f x"
  by (simp add: and_then_def)

lemma and_then_Inl [simp]: "and_then (Inl e) f = Inl e"
  by (simp add: and_then_def)

lemma map_of_create_dataset:
  "map_of (datasets (create_dataset a name)) = (map_of (datasets a))(name \<mapsto> BufferedDataset_init name)"
  by (simp add: create_dataset_def update_conv')

lemma hf_create_dataset [simp]: "hf (create_dataset a name) = hf a"
  by (simp add: create_dataset_def)

lemma dataset_append_spec:
  assumes "map_of (datasets a) name = Some d" "dataset_invariant d"
  shows "\<exists>a' d'. dataset_append a name t = Inr a' \<and> hf a' = hf a \<and>
           map_of (datasets a') = (map_of (datasets a))(name \<mapsto> d') \<and>
           dataset_invariant d' \<and> dataset d' @ pending d' = dataset d @ pending d @ t \<and>
           total_data d' = total_data d + int (length t)"
proof -
  from dataset_invariant_append[OF assms(2), of t]
  obtain d' where d': "append d t = Inr d'" "dataset_invariant d'"
     "dataset d' @ pending d' = dataset d @ pending d @ t" by blast
  have "int (length (dataset d' @ pending d')) = int (length (dataset d @ pending d @ t))"
    using d'(3) by simp
  then have tot: "total_data d' = total_data d + int (length t)"
    using length_pending[OF dataset_invariant_buffer_ok[OF assms(2)]]
          length_pending[OF dataset_invariant_buffer_ok[OF d'(2)]] assms(2) d'(2)
    by (simp add: dataset_invariant_def)
  have "dataset_append a name t = Inr (a\<lparr> datasets := AList.update name d' (datasets a) \<rparr>)"
    using assms(1) d'(1) by (simp add: dataset_append_def)
  then show ?thesis using d'(2,3) tot
    by (intro exI[of _ "a\<lparr> datasets := AList.update name d' (datasets a) \<rparr>"] exI[of _ d'])
       (simp add: update_conv')
qed

text \<open>\<open>dataset_append\<close> on a dataset the dictionary holds never fails, whatever the writer's state.\<close>

lemma dataset_append_frame:
  assumes "map_of (datasets a) name = Some d"
  shows "\<exists>a' d'. dataset_append a name t = Inr a' \<and> hf a' = hf a \<and>
           map_of (datasets a') = (map_of (datasets a))(name \<mapsto> d')"
proof -
  obtain d' where d': "append d t = Inr d'" using append_no_error by blast
  have "dataset_append a name t = Inr (a\<lparr> datasets := AList.update name d' (datasets a) \<rparr>)"
    using assms(1) d'(1) by (simp add: dataset_append_def)
  then show ?thesis
    by (intro exI[of _ "a\<lparr> datasets := AList.update name d' (datasets a) \<rparr>"] exI[of _ d'])
       (simp add: update_conv')
qed

lemma append_tensor_frame:
  "\<exists>a' d'. append_tensor a name t = Inr a' \<and> hf a' = hf a \<and>
           map_of (datasets a') = (map_of (datasets a))(name \<mapsto> d')"
proof (cases "map_of (datasets a) name")
  case None
  have "map_of (datasets (create_dataset a name)) name = Some (BufferedDataset_init name)"
    by (simp add: map_of_create_dataset)
  from dataset_append_frame[OF this, of t] None show ?thesis
    by (auto simp: append_tensor_def map_of_create_dataset)
next
  case (Some d)
  from dataset_append_frame[OF this, of t] Some show ?thesis
    by (auto simp: append_tensor_def)
qed

lemma wrap64_id: "- (2 ^ 63) \<le> x \<Longrightarrow> x < 2 ^ 63 \<Longrightarrow> wrap64 x = x"
  by (simp add: wrap64_def)

lemma offsets_from_shift: "map (\<lambda>x. x + c) (offsets_from acc R) = offsets_from (acc + c) R"
  by (induction R arbitrary: acc) (simp_all add: ac_simps)

lemma offsets_from_append:
  "offsets_from acc (R @ R') =
   offsets_from acc R @ tl (offsets_from (acc + int (length (concat R))) R')"
proof (induction R arbitrary: acc)
  case Nil
  show ?case by (cases R') simp_all
next
  case (Cons r R)
  show ?case by (simp add: Cons.IH add.assoc)
qed

lemma offsets_from_bounds:
  "x \<in> set (offsets_from acc R) \<Longrightarrow> acc \<le> x \<and> x \<le> acc + int (length (concat R))"
proof (induction R arbitrary: acc)
  case Nil
  then show ?case by simp
next
  case (Cons r R)
  then show ?case by fastforce
qed

lemma offsets_from_nonempty [simp]: "offsets_from acc R \<noteq> []"
  by (cases R) simp_all

lemma length_offsets_from [simp]: "length (offsets_from acc R) = Suc (length R)"
  by (induction R arbitrary: acc) simp_all

lemma hd_offsets_from [simp]: "hd (offsets_from acc R) = acc"
  by (cases R) simp_all

lemma shifted_offsets:
  assumes "0 \<le> T" "T + int (length (concat rs)) < 2 ^ 63"
  shows "map (\<lambda>x. wrap64 (x + T)) (tl (offsets_from 0 rs)) = tl (offsets_from T rs)"
proof -
  have "map (\<lambda>x. wrap64 (x + T)) (tl (offsets_from 0 rs)) = map (\<lambda>x. x + T) (tl (offsets_from 0 rs))"
  proof (rule map_cong[OF refl])
    fix x assume "x \<in> set (tl (offsets_from 0 rs))"
    then have "x \<in> set (offsets_from 0 rs)" by (rule list.set_sel(2)[rotated]) simp
    from offsets_from_bounds[OF this] assms show "wrap64 (x + T) = x + T"
      by (intro wrap64_id) auto
  qed
  also have "\<dots> = tl (map (\<lambda>x. x + T) (offsets_from 0 rs))" by (simp add: map_tl)
  also have "\<dots> = tl (offsets_from T rs)" by (simp add: offsets_from_shift)
  finally show ?thesis .
qed

lemma names_differ [simp]: "name @ ''_offsets'' \<noteq> name @ ''_data''" "name @ ''_data'' \<noteq> name @ ''_offsets''"
  by simp_all

lemma append_tensor_list_tail:
  assumes st: "ragged_state a2 name R"
    and bound: "int (length (concat R)) + int (length (concat rs)) < 2 ^ 63"
  shows "\<exists>a'. (case map_of (datasets a2) (name @ ''_data'') of
                   None \<Rightarrow> Inl (KeyError (name @ ''_data''))
                 | Some d \<Rightarrow>
                     let offs = map (\<lambda>x. wrap64 (x + total_data d)) (tl (offsets (ragged rs)));
                         dat = data (ragged rs)
                     in and_then (dataset_append a2 (name @ ''_offsets'') offs)
                          (\<lambda>a3. dataset_append a3 (name @ ''_data'') dat)) = Inr a' \<and>
               ragged_state a' name (R @ rs) \<and> hf a' = hf a2 \<and>
               (\<forall>n. n \<noteq> name @ ''_offsets'' \<longrightarrow> n \<noteq> name @ ''_data'' \<longrightarrow>
                    map_of (datasets a') n = map_of (datasets a2) n)"
proof -
  from st obtain d_o d_d where d:
      "map_of (datasets a2) (name @ ''_offsets'') = Some d_o"
      "map_of (datasets a2) (name @ ''_data'') = Some d_d"
      "dataset_invariant d_o" "dataset_invariant d_d"
      "dataset d_o @ pending d_o = offsets_from 0 R"
      "dataset d_d @ pending d_d = concat R"
      "total_data d_d = int (length (concat R))"
    unfolding ragged_state_def by blast
  define offs where "offs = map (\<lambda>x. wrap64 (x + total_data d_d)) (tl (offsets (ragged rs)))"
  have offs: "offs = tl (offsets_from (int (length (concat R))) rs)"
    unfolding offs_def d(7) using shifted_offsets[of "int (length (concat R))" rs] bound
    by (simp add: ragged_def)
  from dataset_append_spec[OF d(1) d(3), of offs]
  obtain a3 d_o' where a3: "dataset_append a2 (name @ ''_offsets'') offs = Inr a3" "hf a3 = hf a2"
      "map_of (datasets a3) = (map_of (datasets a2))(name @ ''_offsets'' \<mapsto> d_o')"
      "dataset_invariant d_o'" "dataset d_o' @ pending d_o' = dataset d_o @ pending d_o @ offs"
    by blast
  have d3: "map_of (datasets a3) (name @ ''_data'') = Some d_d"
    using a3(3) d(2) by simp
  from dataset_append_spec[OF d3 d(4), of "concat rs"]
  obtain a4 d_d' where a4: "dataset_append a3 (name @ ''_data'') (concat rs) = Inr a4" "hf a4 = hf a3"
      "map_of (datasets a4) = (map_of (datasets a3))(name @ ''_data'' \<mapsto> d_d')"
      "dataset_invariant d_d'" "dataset d_d' @ pending d_d' = dataset d_d @ pending d_d @ concat rs"
      "total_data d_d' = total_data d_d + int (length (concat rs))"
    by blast
  have run: "(case map_of (datasets a2) (name @ ''_data'') of
                   None \<Rightarrow> Inl (KeyError (name @ ''_data''))
                 | Some d \<Rightarrow>
                     let offs = map (\<lambda>x. wrap64 (x + total_data d)) (tl (offsets (ragged rs)));
                         dat = data (ragged rs)
                     in and_then (dataset_append a2 (name @ ''_offsets'') offs)
                          (\<lambda>a3. dataset_append a3 (name @ ''_data'') dat)) = Inr a4"
    using d(2) a3(1) a4(1) by (simp add: Let_def offs_def[symmetric]) (simp add: ragged_def)
  have o4: "map_of (datasets a4) (name @ ''_offsets'') = Some d_o'"
    using a4(3) a3(3) by simp
  have d4: "map_of (datasets a4) (name @ ''_data'') = Some d_d'"
    using a4(3) by simp
  have co: "dataset d_o' @ pending d_o' = offsets_from 0 (R @ rs)"
    using a3(5) d(5) offs by (simp add: offsets_from_append)
  have cd: "dataset d_d' @ pending d_d' = concat (R @ rs)"
    using a4(5) d(6) by simp
  have tot: "total_data d_d' = int (length (concat (R @ rs)))"
    using a4(6) d(7) by simp
  have "ragged_state a4 name (R @ rs)"
    unfolding ragged_state_def using o4 d4 a3(4) a4(4) co cd tot by blast
  moreover have "hf a4 = hf a2" using a3(2) a4(2) by simp
  moreover have "\<forall>n. n \<noteq> name @ ''_offsets'' \<longrightarrow> n \<noteq> name @ ''_data'' \<longrightarrow>
                    map_of (datasets a4) n = map_of (datasets a2) n"
    using a4(3) a3(3) by simp
  ultimately show ?thesis using run by blast
qed

lemma append_tensor_list_next:
  assumes st: "ragged_state a name R"
    and bound: "int (length (concat R)) + int (length (concat rs)) < 2 ^ 63"
  shows "\<exists>a'. append_tensor_list a name (ragged rs) = Inr a' \<and>
               ragged_state a' name (R @ rs) \<and> hf a' = hf a \<and>
               (\<forall>n. n \<noteq> name @ ''_offsets'' \<longrightarrow> n \<noteq> name @ ''_data'' \<longrightarrow>
                    map_of (datasets a') n = map_of (datasets a) n)"
proof -
  obtain d_o d_d where ex: "map_of (datasets a) (name @ ''_offsets'') = Some d_o"
      "map_of (datasets a) (name @ ''_data'') = Some d_d"
    using st unfolding ragged_state_def by blast
  have "append_tensor_list a name (ragged rs) =
        (case map_of (datasets a) (name @ ''_data'') of
                   None \<Rightarrow> Inl (KeyError (name @ ''_data''))
                 | Some d \<Rightarrow>
                     let offs = map (\<lambda>x. wrap64 (x + total_data d)) (tl (offsets (ragged rs)));
                         dat = data (ragged rs)
                     in and_then (dataset_append a (name @ ''_offsets'') offs)
                          (\<lambda>a3. dataset_append a3 (name @ ''_data'') dat))"
    by (simp add: append_tensor_list_def Let_def ex)
  then show ?thesis using append_tensor_list_tail[OF st bound] by simp
qed

lemma append_tensor_list_first:
  assumes no: "map_of (datasets a) (name @ ''_offsets'') = None"
    and nd: "map_of (datasets a) (name @ ''_data'') = None"
    and bound: "int (length (concat rs)) < 2 ^ 63"
  shows "\<exists>a'. append_tensor_list a name (ragged rs) = Inr a' \<and>
               ragged_state a' name rs \<and> hf a' = hf a \<and>
               (\<forall>n. n \<noteq> name @ ''_offsets'' \<longrightarrow> n \<noteq> name @ ''_data'' \<longrightarrow>
                    map_of (datasets a') n = map_of (datasets a) n)"
proof -
  define a0 where "a0 = create_dataset a (name @ ''_offsets'')"
  have m0: "map_of (datasets a0) (name @ ''_offsets'') = Some (BufferedDataset_init (name @ ''_offsets''))"
    by (simp add: a0_def map_of_create_dataset)
  from dataset_append_spec[OF m0 dataset_invariant_init, of "[0]"]
  obtain a1 d_o where a1: "dataset_append a0 (name @ ''_offsets'') [0] = Inr a1" "hf a1 = hf a0"
      "map_of (datasets a1) = (map_of (datasets a0))(name @ ''_offsets'' \<mapsto> d_o)"
      "dataset_invariant d_o"
      "dataset d_o @ pending d_o = dataset (BufferedDataset_init (name @ ''_offsets'')) @
          pending (BufferedDataset_init (name @ ''_offsets'')) @ [0]"
    by blast
  have co: "dataset d_o @ pending d_o = offsets_from 0 []"
    using a1(5) by (simp add: pending_init) (simp add: BufferedDataset_init_def)
  have nd1: "map_of (datasets a1) (name @ ''_data'') = None"
    using a1(3) nd by (simp add: a0_def map_of_create_dataset)
  define a2 where "a2 = create_dataset a1 (name @ ''_data'')"
  have st2: "ragged_state a2 name []"
  proof -
    have "map_of (datasets a2) (name @ ''_offsets'') = Some d_o"
      using a1(3) by (simp add: a2_def map_of_create_dataset)
    moreover have "map_of (datasets a2) (name @ ''_data'') = Some (BufferedDataset_init (name @ ''_data''))"
      by (simp add: a2_def map_of_create_dataset)
    moreover have "dataset_invariant (BufferedDataset_init (name @ ''_data''))"
      by (rule dataset_invariant_init)
    moreover have "dataset (BufferedDataset_init (name @ ''_data'')) @ pending (BufferedDataset_init (name @ ''_data'')) = concat []"
      by (simp add: pending_init) (simp add: BufferedDataset_init_def)
    moreover have "total_data (BufferedDataset_init (name @ ''_data'')) = int (length (concat ([]::int list list)))"
      by (simp add: BufferedDataset_init_def)
    ultimately show ?thesis
      unfolding ragged_state_def using a1(4) co by blast
  qed
  have bound': "int (length (concat ([]::int list list))) + int (length (concat rs)) < 2 ^ 63"
    using bound by simp
  have "append_tensor_list a name (ragged rs) =
        (case map_of (datasets a2) (name @ ''_data'') of
                   None \<Rightarrow> Inl (KeyError (name @ ''_data''))
                 | Some d \<Rightarrow>
                     let offs = map (\<lambda>x. wrap64 (x + total_data d)) (tl (offsets (ragged rs)));
                         dat = data (ragged rs)
                     in and_then (dataset_append a2 (name @ ''_offsets'') offs)
                          (\<lambda>a3. dataset_append a3 (name @ ''_data'') dat))"
    unfolding a2_def using no a1(1)[unfolded a0_def] nd1 by (simp add: append_tensor_list_def Let_def)
  moreover from append_tensor_list_tail[OF st2 bound']
  obtain a' where a': "(case map_of (datasets a2) (name @ ''_data'') of
                   None \<Rightarrow> Inl (KeyError (name @ ''_data''))
                 | Some d \<Rightarrow>
                     let offs = map (\<lambda>x. wrap64 (x + total_data d)) (tl (offsets (ragged rs)));
                         dat = data (ragged rs)
                     in and_then (dataset_append a2 (name @ ''_offsets'') offs)
                          (\<lambda>a3. dataset_append a3 (name @ ''_data'') dat)) = Inr a'"
     "ragged_state a' name ([] @ rs)" "hf a' = hf a2"
     "\<forall>n. n \<noteq> name @ ''_offsets'' \<longrightarrow> n \<noteq> name @ ''_data'' \<longrightarrow>
                    map_of (datasets a') n = map_of (datasets a2) n" by blast
  moreover have "hf a2 = hf a" using a1(2) by (simp add: a2_def a0_def)
  moreover have "\<forall>n. n \<noteq> name @ ''_offsets'' \<longrightarrow> n \<noteq> name @ ''_data'' \<longrightarrow>
                    map_of (datasets a2) n = map_of (datasets a) n"
    using a1(3) by (simp add: a2_def a0_def map_of_create_dataset)
  ultimately show ?thesis by (intro exI[of _ a']) simp
qed

lemma append_tensor_lists_next:
  "ragged_state a name R \<Longrightarrow>
   int (length (concat R)) + int (length (concat (concat rss))) < 2 ^ 63 \<Longrightarrow>
   \<exists>a'. append_tensor_lists a name (map ragged rss) = Inr a' \<and>
        ragged_state a' name (R @ concat rss) \<and> hf a' = hf a"
proof (induction rss arbitrary: a R)
  case Nil
  then show ?case by simp
next
  case (Cons rs rss)
  have b1: "int (length (concat R)) + int (length (concat rs)) < 2 ^ 63"
    using Cons.prems(2) by simp
  from append_tensor_list_next[OF Cons.prems(1) b1]
  obtain a1 where a1: "append_tensor_list a name (ragged rs) = Inr a1"
     "ragged_state a1 name (R @ rs)" "hf a1 = hf a" by blast
  have b2: "int (length (concat (R @ rs))) + int (length (concat (concat rss))) < 2 ^ 63"
    using Cons.prems(2) by simp
  from Cons.IH[OF a1(2) b2]
  obtain a' where a': "append_tensor_lists a1 name (map ragged rss) = Inr a'"
     "ragged_state a' name ((R @ rs) @ concat rss)" "hf a' = hf a1" by blast
  show ?case using a1(1,3) a' by simp
qed

lemma append_tensor_lists_first:
  assumes no: "map_of (datasets a) (name @ ''_offsets'') = None"
    and nd: "map_of (datasets a) (name @ ''_data'') = None"
    and bound: "int (length (concat (concat (rs # rss)))) < 2 ^ 63"
  shows "\<exists>a'. append_tensor_lists a name (map ragged (rs # rss)) = Inr a' \<and>
               ragged_state a' name (concat (rs # rss)) \<and> hf a' = hf a"
proof -
  have b1: "int (length (concat rs)) < 2 ^ 63" using bound by simp
  from append_tensor_list_first[OF no nd b1]
  obtain a1 where a1: "append_tensor_list a name (ragged rs) = Inr a1"
     "ragged_state a1 name rs" "hf a1 = hf a" by blast
  have b2: "int (length (concat rs)) + int (length (concat (concat rss))) < 2 ^ 63"
    using bound by simp
  from append_tensor_lists_next[OF a1(2) b2]
  obtain a' where a': "append_tensor_lists a1 name (map ragged rss) = Inr a'"
     "ragged_state a' name (rs @ concat rss)" "hf a' = hf a1" by blast
  show ?thesis using a1(1,3) a' by simp
qed

lemma flush_all_spec:
  "\<exists>ds'. flush_all ds = Inr ds' \<and>
     (\<forall>n. map_option dataset (map_of ds' n) = map_option (\<lambda>d. dataset d @ pending d) (map_of ds n))"
proof (induction ds)
  case Nil
  show ?case by simp
next
  case (Cons p ds)
  obtain name d where p: "p = (name, d)" by (cases p)
  from flush_buffer_last[of d] obtain d' where d': "flush_buffer d True = Inr d'"
     "dataset d' = dataset d @ pending d" by blast
  from Cons.IH obtain ds' where ds': "flush_all ds = Inr ds'"
     "\<forall>n. map_option dataset (map_of ds' n) = map_option (\<lambda>d. dataset d @ pending d) (map_of ds n)"
    by blast
  have "flush_all (p # ds) = Inr ((name, d') # ds')" using d'(1) ds'(1) by (simp add: p)
  moreover have "\<forall>n. map_option dataset (map_of ((name, d') # ds') n) =
        map_option (\<lambda>d. dataset d @ pending d) (map_of (p # ds) n)"
    using ds'(2) d'(2) by (simp add: p)
  ultimately show ?case by blast
qed

lemma FileEdgeAppender_exit_spec:
  "\<exists>f. FileEdgeAppender_exit a = Inr f \<and> attrs f = attrs (hf a) \<and>
       (\<forall>n. columns f n =
          (case map_of (datasets a) n of
             Some d \<Rightarrow> Some (dataset d @ pending d)
           | None \<Rightarrow> columns (hf a) n))"
proof -
  from flush_all_spec[of "datasets a"] obtain ds' where ds': "flush_all (datasets a) = Inr ds'"
     "\<forall>n. map_option dataset (map_of ds' n) = map_option (\<lambda>d. dataset d @ pending d) (map_of (datasets a) n)"
    by blast
  have run: "FileEdgeAppender_exit a = Inr (close_file (a\<lparr> datasets := ds' \<rparr>))"
    using ds'(1) by (simp add: FileEdgeAppender_exit_def)
  have "\<forall>n. columns (close_file (a\<lparr> datasets := ds' \<rparr>)) n =
          (case map_of (datasets a) n of
             Some d \<Rightarrow> Some (dataset d @ pending d)
           | None \<Rightarrow> columns (hf a) n)"
  proof
    fix n
    show "columns (close_file (a\<lparr> datasets := ds' \<rparr>)) n =
          (case map_of (datasets a) n of
             Some d \<Rightarrow> Some (dataset d @ pending d)
           | None \<Rightarrow> columns (hf a) n)"
      using ds'(2)[rule_format, of n]
      by (cases "map_of (datasets a) n") (auto simp: close_file_def map_add_def split: option.splits)
  qed
  moreover have "attrs (close_file (a\<lparr> datasets := ds' \<rparr>)) = attrs (hf a)"
    by (simp add: close_file_def)
  ultimately show ?thesis using run by blast
qed

lemma drop_offsets_from:
  "n \<le> length R \<Longrightarrow>
   drop n (offsets_from acc R) = offsets_from (acc + int (length (concat (take n R)))) (drop n R)"
proof (induction R arbitrary: acc n)
  case Nil
  then show ?case by simp
next
  case (Cons r R)
  show ?case
  proof (cases n)
    case 0
    then show ?thesis by simp
  next
    case (Suc m)
    then show ?thesis using Cons.prems Cons.IH[of m "acc + int (length r)"] by (simp add: add.assoc)
  qed
qed

lemma take_offsets_from:
  "m \<le> length R \<Longrightarrow> take (Suc m) (offsets_from acc R) = offsets_from acc (take m R)"
proof (induction R arbitrary: acc m)
  case Nil
  then show ?case by simp
next
  case (Cons r R)
  show ?case
  proof (cases m)
    case 0
    then show ?thesis by simp
  next
    case (Suc k)
    then show ?thesis using Cons.prems Cons.IH[of k "acc + int (length r)"] by simp
  qed
qed

lemma last_offsets_from: "last (offsets_from acc R) = acc + int (length (concat R))"
  by (induction R arbitrary: acc) (simp_all add: add.assoc)

lemma offsets_from_minus: "map (\<lambda>x. x - c) (offsets_from acc R) = offsets_from (acc - c) R"
  using offsets_from_shift[of "- c" acc R] by simp

lemma drop_concat_take: "drop (length (concat (take n R))) (concat R) = concat (drop n R)"
proof -
  have "concat R = concat (take n R) @ concat (drop n R)"
    by (metis append_take_drop_id concat_append)
  then show ?thesis by (metis append_eq_conv_conj)
qed

lemma take_concat_take: "take (length (concat (take m R))) (concat R) = concat (take m R)"
proof -
  have "concat R = concat (take m R) @ concat (drop m R)"
    by (metis append_take_drop_id concat_append)
  then show ?thesis by (metis append_eq_conv_conj)
qed

lemma read_direct_in_range:
  assumes "0 \<le> b" "b \<le> e" "e \<le> int (length ds)"
  shows "read_direct ds (e - b) b e = Inr (slice ds b e)"
proof -
  have "slice_index (length ds) b = b" "slice_index (length ds) e = e"
    using assms by (simp_all add: slice_index_def)
  moreover have "int (length (slice ds b e)) = e - b"
    using length_slice[OF assms] assms by simp
  ultimately show ?thesis using assms by (simp add: read_direct_def Let_def)
qed

lemma length_concat_take_le: "length (concat (take n R)) \<le> length (concat R)"
proof -
  have "concat R = concat (take n R) @ concat (drop n R)"
    by (metis append_take_drop_id concat_append)
  then have "length (concat R) = length (concat (take n R)) + length (concat (drop n R))"
    by (metis length_append)
  then show ?thesis by simp
qed

lemma read_dynamic_ragged:
  assumes co: "columns f (key @ ''_offsets'') = Some (offsets_from 0 R)"
      and cd: "columns f (key @ ''_data'') = Some (concat R)"
      and r0: "0 \<le> begin" and r1: "begin \<le> end" and r2: "end \<le> int (length R)"
      and bound: "int (length (concat R)) < 2 ^ 63"
  shows "read_dynamic f key begin end = Inr (ragged (take (nat (end - begin)) (drop (nat begin) R)))"
proof -
  define b where "b = nat begin"
  define m where "m = nat (end - begin)"
  define S where "S = int (length (concat (take b R)))"
  define R' where "R' = take m (drop b R)"
  define L where "L = int (length (concat R'))"
  have bR: "b \<le> length R" and mR: "m \<le> length (drop b R)"
    using r0 r1 r2 by (simp_all add: b_def m_def)
  have S0: "0 \<le> S" and L0: "0 \<le> L" by (simp_all add: S_def L_def)
  have cat: "concat R = concat (take b R) @ concat R' @ concat (drop m (drop b R))"
    unfolding R'_def by (metis append_take_drop_id concat_append)
  have SL: "S + L \<le> int (length (concat R))"
  proof -
    have "length (concat R) = length (concat (take b R)) + (length (concat R') + length (concat (drop m (drop b R))))"
      by (subst cat) (simp only: length_append)
    then show ?thesis by (simp add: S_def L_def)
  qed
  have rd_off: "read_direct (offsets_from 0 R) (end - begin + 1) begin (end + 1)
        = Inr (slice (offsets_from 0 R) begin (end + 1))"
    using read_direct_in_range[of "begin" "end + 1" "offsets_from 0 R"] r0 r1 r2
    by (simp add: algebra_simps)
  have offs: "slice (offsets_from 0 R) begin (end + 1) = offsets_from S R'"
  proof -
    have "nat (end + 1 - begin) = Suc m" using r1 by (simp add: m_def nat_add_distrib algebra_simps)
    then have "slice (offsets_from 0 R) begin (end + 1) = take (Suc m) (drop b (offsets_from 0 R))"
      by (simp add: slice_def b_def)
    also have "\<dots> = take (Suc m) (offsets_from S (drop b R))"
      using drop_offsets_from[OF bR, of 0] by (simp add: S_def)
    also have "\<dots> = offsets_from S R'"
      unfolding R'_def by (rule take_offsets_from[OF mR])
    finally show ?thesis .
  qed
  have hd_: "hd (offsets_from S R') = S" by simp
  have last_: "last (offsets_from S R') = S + L" by (simp add: last_offsets_from L_def)
  have dat: "(if 0 < L then read_direct (concat R) L S (S + L) else Inr []) = Inr (concat R')"
  proof (cases "0 < L")
    case True
    have "read_direct (concat R) (S + L - S) S (S + L) = Inr (slice (concat R) S (S + L))"
      by (rule read_direct_in_range) (use S0 L0 SL in auto)
    moreover have "slice (concat R) S (S + L) = concat R'"
    proof -
      have "slice (concat R) S (S + L) = take (length (concat R')) (drop (length (concat (take b R))) (concat R))"
        by (simp add: slice_def S_def L_def)
      also have "\<dots> = take (length (concat (take m (drop b R)))) (concat (drop b R))"
        by (simp only: drop_concat_take R'_def)
      also have "\<dots> = concat R'"
        unfolding R'_def by (rule take_concat_take)
      finally show ?thesis .
    qed
    ultimately show ?thesis using True by simp
  next
    case False
    then have "concat R' = []" using L0 by (simp add: L_def)
    then show ?thesis using False by simp
  qed
  have norm: "map (\<lambda>x. wrap64 (x - S)) (offsets_from S R') = offsets_from 0 R'"
  proof -
    have "map (\<lambda>x. wrap64 (x - S)) (offsets_from S R') = map (\<lambda>x. x - S) (offsets_from S R')"
    proof (rule map_cong[OF refl])
      fix x assume "x \<in> set (offsets_from S R')"
      from offsets_from_bounds[OF this] SL bound S0 show "wrap64 (x - S) = x - S"
        by (intro wrap64_id) (auto simp: L_def)
    qed
    then show ?thesis by (simp add: offsets_from_minus)
  qed
  have neg: "\<not> end - begin + 1 < 0" using r1 by simp
  have "read_dynamic f key begin end = Inr \<lparr> offsets = offsets_from 0 R', data = concat R' \<rparr>"
    unfolding read_dynamic_def
    using neg dat L0 by (auto simp: co cd rd_off offs Let_def last_ norm split: if_splits)
  then show ?thesis by (simp add: ragged_def R'_def m_def b_def)
qed

lemma ragged_write_read:
  assumes no: "map_of (datasets a) (name @ ''_offsets'') = None"
    and nd: "map_of (datasets a) (name @ ''_data'') = None"
    and fo: "columns (hf a) (name @ ''_offsets'') = None"
    and fd: "columns (hf a) (name @ ''_data'') = None"
    and bound: "int (length (concat (concat rss))) < 2 ^ 63"
    and r0: "0 \<le> begin" and r1: "begin \<le> end" and r2: "end \<le> int (length (concat rss))"
  shows "\<exists>a' f. append_tensor_lists a name (map ragged rss) = Inr a' \<and>
           FileEdgeAppender_exit a' = Inr f \<and>
           (rss \<noteq> [] \<longrightarrow> columns f (name @ ''_offsets'') = Some (offsets_from 0 (concat rss))) \<and>
           read_dynamic f name begin end =
             Inr (ragged (take (nat (end - begin)) (drop (nat begin) (concat rss))))"
proof (cases rss)
  case Nil
  from FileEdgeAppender_exit_spec[of a]
  obtain f where f: "FileEdgeAppender_exit a = Inr f"
    "\<forall>n. columns f n = (case map_of (datasets a) n of
             Some d \<Rightarrow> Some (dataset d @ pending d) | None \<Rightarrow> columns (hf a) n)" by blast
  have "columns f (name @ ''_offsets'') = None" using f(2) no fo by simp
  moreover have "begin = 0" "end = 0" using r0 r1 r2 Nil by simp_all
  ultimately have "read_dynamic f name begin end = Inr (ragged [])"
    by (simp add: read_dynamic_def ragged_def)
  then show ?thesis using f(1) Nil by simp
next
  case (Cons rs rss')
  from append_tensor_lists_first[OF no nd bound[unfolded Cons]]
  obtain a' where a': "append_tensor_lists a name (map ragged rss) = Inr a'"
     "ragged_state a' name (concat rss)" unfolding Cons by blast
  from a'(2) obtain d_o d_d where d:
      "map_of (datasets a') (name @ ''_offsets'') = Some d_o"
      "map_of (datasets a') (name @ ''_data'') = Some d_d"
      "dataset d_o @ pending d_o = offsets_from 0 (concat rss)"
      "dataset d_d @ pending d_d = concat (concat rss)"
    unfolding ragged_state_def by blast
  from FileEdgeAppender_exit_spec[of a']
  obtain f where f: "FileEdgeAppender_exit a' = Inr f"
    "\<forall>n. columns f n = (case map_of (datasets a') n of
             Some d \<Rightarrow> Some (dataset d @ pending d) | None \<Rightarrow> columns (hf a') n)" by blast
  have co: "columns f (name @ ''_offsets'') = Some (offsets_from 0 (concat rss))"
    using f(2) d(1,3) by simp
  have cd: "columns f (name @ ''_data'') = Some (concat (concat rss))"
    using f(2) d(2,4) by simp
  from read_dynamic_ragged[OF co cd r0 r1 r2 bound] a'(1) f(1) co
  show ?thesis by blast
qed

lemma ragged_example_1_3:
  "\<exists>a' f. append_tensor_lists (FileEdgeAppender_init empty_h5file) ''lhsd''
              (map ragged [[[1, 2], [3]], [[], [4, 5, 6]]]) = Inr a' \<and>
          FileEdgeAppender_exit a' = Inr f \<and>
          read_dynamic f ''lhsd'' 1 3 = Inr (ragged [[3], []])"
proof -
  have "\<exists>a' f. append_tensor_lists (FileEdgeAppender_init empty_h5file) ''lhsd''
              (map ragged [[[1, 2], [3]], [[], [4, 5, 6]]]) = Inr a' \<and>
          FileEdgeAppender_exit a' = Inr f \<and>
          ([[[1, 2], [3]], [[], [4, 5, 6]]] \<noteq> ([] :: int list list list) \<longrightarrow>
             columns f (''lhsd'' @ ''_offsets'') = Some (offsets_from 0 (concat [[[1, 2], [3]], [[], [4, 5, 6]]]))) \<and>
          read_dynamic f ''lhsd'' 1 3 =
             Inr (ragged (take (nat (3 - 1)) (drop (nat 1) (concat [[[1, 2], [3]], [[], [4, 5, 6]]]))))"
    by (rule ragged_write_read) (simp_all add: FileEdgeAppender_init_def empty_h5file_def)
  then show ?thesis by (auto simp: numeral_2_eq_2)
qed

lemma nth_offsets_from:
  "i \<le> length R \<Longrightarrow> offsets_from acc R ! i = acc + int (length (concat (take i R)))"
proof -
  assume i: "i \<le> length R"
  have "offsets_from acc R ! i = hd (drop i (offsets_from acc R))"
    using i by (simp add: hd_drop_conv_nth)
  also have "\<dots> = acc + int (length (concat (take i R)))"
    by (simp add: drop_offsets_from[OF i])
  finally show ?thesis .
qed

lemma records_of_ragged: "records_of (ragged rs) = rs"
proof (rule nth_equalityI)
  show "length (records_of (ragged rs)) = length rs"
    by (simp add: records_of_def ragged_def)
next
  fix i assume "i < length (records_of (ragged rs))"
  then have i: "i < length rs" by (simp add: records_of_def ragged_def)
  have t: "take (Suc i) rs = take i rs @ [rs ! i]" using i by (rule take_Suc_conv_app_nth)
  have o0: "offsets_from 0 rs ! 0 = 0" by (simp add: nth_offsets_from)
  have o1: "offsets_from 0 rs ! i = int (length (concat (take i rs)))"
    using i by (simp add: nth_offsets_from)
  have o2: "offsets_from 0 rs ! Suc i = int (length (concat (take i rs))) + int (length (rs ! i))"
    using i by (simp add: nth_offsets_from t)
  have "slice (concat rs) (offsets_from 0 rs ! i - offsets_from 0 rs ! 0)
            (offsets_from 0 rs ! (i + 1) - offsets_from 0 rs ! 0)
        = take (length (rs ! i)) (drop (length (concat (take i rs))) (concat rs))"
    by (simp add: o0 o1 o2 slice_def)
  also have "\<dots> = take (length (rs ! i)) (concat (drop i rs))"
    by (simp only: drop_concat_take)
  also have "\<dots> = rs ! i"
    using i by (simp add: Cons_nth_drop_Suc[symmetric])
  finally show "records_of (ragged rs) ! i = rs ! i"
    using i by (simp add: records_of_def ragged_def)
qed

lemma append_tensor_list_frame:
  "\<exists>a'. append_tensor_list a name tlist = Inr a' \<and> hf a' = hf a \<and>
        (\<forall>n. n \<noteq> name @ ''_offsets'' \<longrightarrow> n \<noteq> name @ ''_data'' \<longrightarrow>
             map_of (datasets a') n = map_of (datasets a) n)"
proof -
  define a1r where "a1r = (if map_of (datasets a) (name @ ''_offsets'') = None
            then dataset_append (create_dataset a (name @ ''_offsets'')) (name @ ''_offsets'') [0]
            else Inr a)"
  have "\<exists>a1 d. a1r = Inr a1 \<and> hf a1 = hf a \<and> map_of (datasets a1) (name @ ''_offsets'') = Some d \<and>
          (\<forall>n. n \<noteq> name @ ''_offsets'' \<longrightarrow> map_of (datasets a1) n = map_of (datasets a) n)"
  proof (cases "map_of (datasets a) (name @ ''_offsets'')")
    case None
    have "map_of (datasets (create_dataset a (name @ ''_offsets''))) (name @ ''_offsets'')
            = Some (BufferedDataset_init (name @ ''_offsets''))"
      by (simp add: map_of_create_dataset)
    from dataset_append_frame[OF this, of "[0]"] None show ?thesis
      by (auto simp: a1r_def map_of_create_dataset)
  next
    case (Some d)
    then show ?thesis by (simp add: a1r_def)
  qed
  then obtain a1 d1 where a1: "a1r = Inr a1" "hf a1 = hf a"
     "map_of (datasets a1) (name @ ''_offsets'') = Some d1"
     "\<forall>n. n \<noteq> name @ ''_offsets'' \<longrightarrow> map_of (datasets a1) n = map_of (datasets a) n" by blast
  define a2 where "a2 = (if map_of (datasets a1) (name @ ''_data'') = None
                        then create_dataset a1 (name @ ''_data'') else a1)"
  have "\<exists>d. map_of (datasets a2) (name @ ''_data'') = Some d"
    by (cases "map_of (datasets a1) (name @ ''_data'')") (simp_all add: a2_def map_of_create_dataset)
  then obtain d2 where d2: "map_of (datasets a2) (name @ ''_data'') = Some d2" by blast
  have o2: "map_of (datasets a2) (name @ ''_offsets'') = Some d1"
    using a1(3) by (simp add: a2_def map_of_create_dataset)
  have fr2: "\<forall>n. n \<noteq> name @ ''_offsets'' \<longrightarrow> n \<noteq> name @ ''_data'' \<longrightarrow>
       map_of (datasets a2) n = map_of (datasets a) n"
    using a1(4) by (simp add: a2_def map_of_create_dataset)
  have hf2: "hf a2 = hf a" using a1(2) by (simp add: a2_def)
  define offs where "offs = map (\<lambda>x. wrap64 (x + total_data d2)) (tl (offsets tlist))"
  from dataset_append_frame[OF o2, of offs]
  obtain a3 d3 where a3: "dataset_append a2 (name @ ''_offsets'') offs = Inr a3" "hf a3 = hf a2"
     "map_of (datasets a3) = (map_of (datasets a2))(name @ ''_offsets'' \<mapsto> d3)" by blast
  have "map_of (datasets a3) (name @ ''_data'') = Some d2" using a3(3) d2 by simp
  from dataset_append_frame[OF this, of "data tlist"]
  obtain a4 d4 where a4: "dataset_append a3 (name @ ''_data'') (data tlist) = Inr a4" "hf a4 = hf a3"
     "map_of (datasets a4) = (map_of (datasets a3))(name @ ''_data'' \<mapsto> d4)" by blast
  have "append_tensor_list a name tlist = and_then a1r (\<lambda>a1.
              let a2 = (if map_of (datasets a1) (name @ ''_data'') = None
                        then create_dataset a1 (name @ ''_data'') else a1)
              in case map_of (datasets a2) (name @ ''_data'') of
                   None \<Rightarrow> Inl (KeyError (name @ ''_data''))
                 | Some d \<Rightarrow>
                     let offs = map (\<lambda>x. wrap64 (x + total_data d)) (tl (offsets tlist));
                         dat = data tlist
                     in and_then (dataset_append a2 (name @ ''_offsets'') offs)
                          (\<lambda>a3. dataset_append a3 (name @ ''_data'') dat))"
    unfolding a1r_def by (simp add: append_tensor_list_def Let_def)
  also have "\<dots> = (case map_of (datasets a2) (name @ ''_data'') of
                   None \<Rightarrow> Inl (KeyError (name @ ''_data''))
                 | Some d \<Rightarrow>
                     let offs = map (\<lambda>x. wrap64 (x + total_data d)) (tl (offsets tlist));
                         dat = data tlist
                     in and_then (dataset_append a2 (name @ ''_offsets'') offs)
                          (\<lambda>a3. dataset_append a3 (name @ ''_data'') dat))"
    unfolding a2_def by (simp add: a1(1) Let_def)
  also have "\<dots> = Inr a4"
    using a3(1) a4(1) by (simp add: d2 Let_def offs_def)
  finally have run: "append_tensor_list a name tlist = Inr a4" .
  have "\<forall>n. n \<noteq> name @ ''_offsets'' \<longrightarrow> n \<noteq> name @ ''_data'' \<longrightarrow>
             map_of (datasets a4) n = map_of (datasets a) n"
    using a4(3) a3(3) fr2 by simp
  moreover have "hf a4 = hf a" using a4(2) a3(2) hf2 by simp
  ultimately show ?thesis using run by blast
qed

lemma append_edges_frame:
  "\<exists>a'. append_edges a e = Inr a' \<and> hf a' = hf a \<and>
     (data (tensor_list (lhs e)) = [] \<longrightarrow>
        map_of (datasets a') ''lhsd_offsets'' = map_of (datasets a) ''lhsd_offsets'' \<and>
        map_of (datasets a') ''lhsd_data'' = map_of (datasets a) ''lhsd_data'') \<and>
     (data (tensor_list (rhs e)) = [] \<longrightarrow>
        map_of (datasets a') ''rhsd_offsets'' = map_of (datasets a) ''rhsd_offsets'' \<and>
        map_of (datasets a') ''rhsd_data'' = map_of (datasets a) ''rhsd_data'')"
proof -
  from append_tensor_frame[of a "''lhs''" "tensor (lhs e)"]
  obtain a1 d1 where a1: "append_tensor a ''lhs'' (tensor (lhs e)) = Inr a1" "hf a1 = hf a"
     "map_of (datasets a1) = (map_of (datasets a))(''lhs'' \<mapsto> d1)" by blast
  from append_tensor_frame[of a1 "''rhs''" "tensor (rhs e)"]
  obtain a2 d2 where a2: "append_tensor a1 ''rhs'' (tensor (rhs e)) = Inr a2" "hf a2 = hf a1"
     "map_of (datasets a2) = (map_of (datasets a1))(''rhs'' \<mapsto> d2)" by blast
  from append_tensor_frame[of a2 "''rel''" "rel e"]
  obtain a3 d3 where a3: "append_tensor a2 ''rel'' (rel e) = Inr a3" "hf a3 = hf a2"
     "map_of (datasets a3) = (map_of (datasets a2))(''rel'' \<mapsto> d3)" by blast
  define r4 where "r4 = (if length (data (tensor_list (lhs e))) \<noteq> 0
               then append_tensor_list a3 ''lhsd'' (tensor_list (lhs e))
               else Inr a3)"
  have "\<exists>a4. r4 = Inr a4 \<and> hf a4 = hf a3 \<and>
          (\<forall>n. n \<noteq> ''lhsd_offsets'' \<longrightarrow> n \<noteq> ''lhsd_data'' \<longrightarrow>
             map_of (datasets a4) n = map_of (datasets a3) n) \<and>
          (data (tensor_list (lhs e)) = [] \<longrightarrow> a4 = a3)"
    using append_tensor_list_frame[of a3 "''lhsd''" "tensor_list (lhs e)"]
    by (auto simp: r4_def)
  then obtain a4 where a4: "r4 = Inr a4" "hf a4 = hf a3"
     "\<forall>n. n \<noteq> ''lhsd_offsets'' \<longrightarrow> n \<noteq> ''lhsd_data'' \<longrightarrow>
             map_of (datasets a4) n = map_of (datasets a3) n"
     "data (tensor_list (lhs e)) = [] \<longrightarrow> a4 = a3" by blast
  define r5 where "r5 = (if length (data (tensor_list (rhs e))) \<noteq> 0
     then append_tensor_list a4 ''rhsd'' (tensor_list (rhs e))
     else Inr a4)"
  have "\<exists>a5. r5 = Inr a5 \<and> hf a5 = hf a4 \<and>
          (\<forall>n. n \<noteq> ''rhsd_offsets'' \<longrightarrow> n \<noteq> ''rhsd_data'' \<longrightarrow>
             map_of (datasets a5) n = map_of (datasets a4) n) \<and>
          (data (tensor_list (rhs e)) = [] \<longrightarrow> a5 = a4)"
    using append_tensor_list_frame[of a4 "''rhsd''" "tensor_list (rhs e)"]
    by (auto simp: r5_def)
  then obtain a5 where a5: "r5 = Inr a5" "hf a5 = hf a4"
     "\<forall>n. n \<noteq> ''rhsd_offsets'' \<longrightarrow> n \<noteq> ''rhsd_data'' \<longrightarrow>
             map_of (datasets a5) n = map_of (datasets a4) n"
     "data (tensor_list (rhs e)) = [] \<longrightarrow> a5 = a4" by blast
  have "append_edges a e = and_then r4 (\<lambda>a4.
     if length (data (tensor_list (rhs e))) \<noteq> 0
     then append_tensor_list a4 ''rhsd'' (tensor_list (rhs e))
     else Inr a4)"
    unfolding append_edges_def r4_def by (simp only: a1(1) a2(1) a3(1) and_then_Inr)
  also have "\<dots> = r5"
    unfolding r5_def by (simp only: a4(1) and_then_Inr)
  finally have run: "append_edges a e = Inr a5" using a5(1) by simp
  have l: "data (tensor_list (lhs e)) = [] \<longrightarrow>
        map_of (datasets a5) ''lhsd_offsets'' = map_of (datasets a) ''lhsd_offsets'' \<and>
        map_of (datasets a5) ''lhsd_data'' = map_of (datasets a) ''lhsd_data''"
    using a5(3) a4(4) a3(3) a2(3) a1(3) by simp
  have r: "data (tensor_list (rhs e)) = [] \<longrightarrow>
        map_of (datasets a5) ''rhsd_offsets'' = map_of (datasets a) ''rhsd_offsets'' \<and>
        map_of (datasets a5) ''rhsd_data'' = map_of (datasets a) ''rhsd_data''"
    using a5(4) a4(3) a3(3) a2(3) a1(3) by simp
  have "hf a5 = hf a" using a5(2) a4(2) a3(2) a2(2) a1(2) by simp
  with run l r show ?thesis by blast
qed

lemma read_dynamic_missing:
  assumes "columns f (key @ ''_offsets'') = None \<or> columns f (key @ ''_data'') = None"
    and "begin \<le> end"
  shows "read_dynamic f key begin end =
           Inr \<lparr> offsets = replicate (nat (end - begin + 1)) 0, data = [] \<rparr>"
  using assms by (auto simp: read_dynamic_def split: option.splits)

text \<open>
  Claim C4 (amended). On an appender whose file has no ragged column \<open>name\<close> yet, append any
  sequence of ragged lists, holding fewer than \<open>2^63\<close> values in total (the range of
  the \<open>int64\<close> offsets), with \<open>append_tensor_list\<close>, and close the file. The offsets column
  is then \<open>0\<close> followed by the running totals, one entry more than there are records,
  and \<open>read_dynamic\<close> over \<open>[begin, end)\<close>, for \<open>0 \<le> begin \<le> end \<le>\<close> the number of records,
  returns the ragged list of exactly the records \<open>begin, \<dots>, end - 1\<close>, with offsets that
  start at 0. For \<open>[[1,2],[3]]\<close> then \<open>[[],[4,5,6]]\<close>, the records \<open>[1, 4)\<close> are
  \<open>[[3],[],[4,5,6]]\<close>.
\<close>

theorem ragged_round_trip:
  assumes "map_of (datasets a) (name @ ''_offsets'') = None"
    and "map_of (datasets a) (name @ ''_data'') = None"
    and "columns (hf a) (name @ ''_offsets'') = None"
    and "columns (hf a) (name @ ''_data'') = None"
    and "int (length (concat (concat rss))) < 2 ^ 63"
    and "0 \<le> begin" and "begin \<le> end" and "end \<le> int (length (concat rss))"
  shows "\<exists>a' f. append_tensor_lists a name (map ragged rss) = Inr a' \<and>
           FileEdgeAppender_exit a' = Inr f \<and>
           (rss \<noteq> [] \<longrightarrow> columns f (name @ ''_offsets'') = Some (offsets_from 0 (concat rss))) \<and>
           read_dynamic f name begin end =
             Inr (ragged (take (nat (end - begin)) (drop (nat begin) (concat rss))))"
  using assms by (rule ragged_write_read)

theorem ragged_round_trip_witness:
  "\<exists>a' f. append_tensor_lists (FileEdgeAppender_init empty_h5file) ''lhsd''
              (map ragged [[[1, 2], [3]], [[], [4, 5, 6]]]) = Inr a' \<and>
          FileEdgeAppender_exit a' = Inr f \<and>
          columns f ''lhsd_offsets'' = Some [0, 2, 3, 3, 6] \<and>
          read_dynamic f ''lhsd'' 1 4 = Inr (ragged [[3], [], [4, 5, 6]]) \<and>
          records_of (ragged [[3], [], [4, 5, 6]]) = [[3], [], [4, 5, 6]]"
proof -
  have "\<exists>a' f. append_tensor_lists (FileEdgeAppender_init empty_h5file) ''lhsd''
              (map ragged [[[1, 2], [3]], [[], [4, 5, 6]]]) = Inr a' \<and>
          FileEdgeAppender_exit a' = Inr f \<and>
          ([[[1, 2], [3]], [[], [4, 5, 6]]] \<noteq> ([] :: int list list list) \<longrightarrow>
             columns f (''lhsd'' @ ''_offsets'') = Some (offsets_from 0 (concat [[[1, 2], [3]], [[], [4, 5, 6]]]))) \<and>
          read_dynamic f ''lhsd'' 1 4 =
             Inr (ragged (take (nat (4 - 1)) (drop (nat 1) (concat [[[1, 2], [3]], [[], [4, 5, 6]]]))))"
    by (rule ragged_round_trip) (simp_all add: FileEdgeAppender_init_def empty_h5file_def)
  then show ?thesis by (auto simp: numeral_3_eq_3 records_of_ragged)
qed

text \<open>
  The example of the specification reads the records \<open>[1, 3)\<close>: these are the two records
  \<open>[[3],[]]\<close>, not the three records \<open>[[3],[],[4,5,6]]\<close>.
\<close>

theorem ragged_example_counterexample:
  "\<exists>a' f. append_tensor_lists (FileEdgeAppender_init empty_h5file) ''lhsd''
              (map ragged [[[1, 2], [3]], [[], [4, 5, 6]]]) = Inr a' \<and>
          FileEdgeAppender_exit a' = Inr f \<and>
          read_dynamic f ''lhsd'' 1 3 = Inr (ragged [[3], []]) \<and>
          read_dynamic f ''lhsd'' 1 3 \<noteq> Inr (ragged [[3], [], [4, 5, 6]])"
proof -
  from ragged_example_1_3 obtain a' f where s:
     "append_tensor_lists (FileEdgeAppender_init empty_h5file) ''lhsd''
              (map ragged [[[1, 2], [3]], [[], [4, 5, 6]]]) = Inr a'"
     "FileEdgeAppender_exit a' = Inr f"
     "read_dynamic f ''lhsd'' 1 3 = Inr (ragged [[3], []])" by blast
  have "ragged [[3], []] \<noteq> ragged [[3], [], [4, 5, 6]]" by (simp add: ragged_def)
  then have "read_dynamic f ''lhsd'' 1 3 \<noteq> Inr (ragged [[3], [], [4, 5, 6]])"
    using s(3) by simp
  with s show ?thesis by blast
qed

lemma append_edges_all_frame:
  "\<exists>a'. append_edges_all a es = Inr a' \<and> hf a' = hf a \<and>
     ((\<forall>e \<in> set es. data (tensor_list (lhs e)) = []) \<longrightarrow>
        map_of (datasets a') ''lhsd_offsets'' = map_of (datasets a) ''lhsd_offsets'' \<and>
        map_of (datasets a') ''lhsd_data'' = map_of (datasets a) ''lhsd_data'') \<and>
     ((\<forall>e \<in> set es. data (tensor_list (rhs e)) = []) \<longrightarrow>
        map_of (datasets a') ''rhsd_offsets'' = map_of (datasets a) ''rhsd_offsets'' \<and>
        map_of (datasets a') ''rhsd_data'' = map_of (datasets a) ''rhsd_data'')"
proof (induction es arbitrary: a)
  case Nil
  show ?case by simp
next
  case (Cons e es)
  from append_edges_frame[of a e] obtain a1 where a1: "append_edges a e = Inr a1" "hf a1 = hf a"
    "data (tensor_list (lhs e)) = [] \<longrightarrow>
        map_of (datasets a1) ''lhsd_offsets'' = map_of (datasets a) ''lhsd_offsets'' \<and>
        map_of (datasets a1) ''lhsd_data'' = map_of (datasets a) ''lhsd_data''"
    "data (tensor_list (rhs e)) = [] \<longrightarrow>
        map_of (datasets a1) ''rhsd_offsets'' = map_of (datasets a) ''rhsd_offsets'' \<and>
        map_of (datasets a1) ''rhsd_data'' = map_of (datasets a) ''rhsd_data''" by blast
  from Cons.IH[of a1] obtain a' where a': "append_edges_all a1 es = Inr a'" "hf a' = hf a1"
    "(\<forall>e \<in> set es. data (tensor_list (lhs e)) = []) \<longrightarrow>
        map_of (datasets a') ''lhsd_offsets'' = map_of (datasets a1) ''lhsd_offsets'' \<and>
        map_of (datasets a') ''lhsd_data'' = map_of (datasets a1) ''lhsd_data''"
    "(\<forall>e \<in> set es. data (tensor_list (rhs e)) = []) \<longrightarrow>
        map_of (datasets a') ''rhsd_offsets'' = map_of (datasets a1) ''rhsd_offsets'' \<and>
        map_of (datasets a') ''rhsd_data'' = map_of (datasets a1) ''rhsd_data''" by blast
  have "append_edges_all a (e # es) = Inr a'" using a1(1) a'(1) by simp
  moreover have "hf a' = hf a" using a1(2) a'(2) by simp
  ultimately show ?case using a1(3,4) a'(3,4) by (intro exI[of _ a']) simp
qed

lemma shard_without_dynamic_columns:
  assumes "columns f0 = Map.empty"
  shows "\<exists>a' f. append_edges_all (FileEdgeAppender_init f0) es = Inr a' \<and>
           FileEdgeAppender_exit a' = Inr f \<and>
           ((\<forall>e \<in> set es. data (tensor_list (lhs e)) = []) \<longrightarrow>
              columns f ''lhsd_offsets'' = None \<and> columns f ''lhsd_data'' = None) \<and>
           ((\<forall>e \<in> set es. data (tensor_list (rhs e)) = []) \<longrightarrow>
              columns f ''rhsd_offsets'' = None \<and> columns f ''rhsd_data'' = None)"
proof -
  from append_edges_all_frame[of "FileEdgeAppender_init f0" es]
  obtain a' where a': "append_edges_all (FileEdgeAppender_init f0) es = Inr a'" "hf a' = f0"
    "(\<forall>e \<in> set es. data (tensor_list (lhs e)) = []) \<longrightarrow>
        map_of (datasets a') ''lhsd_offsets'' = None \<and> map_of (datasets a') ''lhsd_data'' = None"
    "(\<forall>e \<in> set es. data (tensor_list (rhs e)) = []) \<longrightarrow>
        map_of (datasets a') ''rhsd_offsets'' = None \<and> map_of (datasets a') ''rhsd_data'' = None"
    by (auto simp: FileEdgeAppender_init_def)
  from FileEdgeAppender_exit_spec[of a']
  obtain f where f: "FileEdgeAppender_exit a' = Inr f"
    "\<forall>n. columns f n = (case map_of (datasets a') n of
             Some d \<Rightarrow> Some (dataset d @ pending d) | None \<Rightarrow> columns (hf a') n)" by blast
  show ?thesis
    using a'(1,3,4) f by (intro exI[of _ a'] exI[of _ f]) (simp add: a'(2) assms)
qed

text \<open>
  Claim C5. \<open>append_edges\<close> always succeeds; when the lhs (resp. rhs) ragged list of the
  edge list has empty data, the call leaves the appender's \<open>lhsd_offsets\<close> and \<open>lhsd_data\<close>
  (resp. \<open>rhsd_*\<close>) entries as they were, so it creates and writes no such column. A shard
  written to a new file from edge lists that all have empty lhs (resp. rhs) ragged data
  has no \<open>lhsd_*\<close> (resp. \<open>rhsd_*\<close>) column. On a file that lacks the offsets or the data
  column of \<open>key\<close>, \<open>read_dynamic\<close> over a range \<open>[begin, end)\<close> returns \<open>end - begin + 1\<close>
  zeros as offsets and empty data.
\<close>

theorem dynamic_column_omission:
  "(\<exists>a'. append_edges a e = Inr a' \<and>
      (data (tensor_list (lhs e)) = [] \<longrightarrow>
         map_of (datasets a') ''lhsd_offsets'' = map_of (datasets a) ''lhsd_offsets'' \<and>
         map_of (datasets a') ''lhsd_data'' = map_of (datasets a) ''lhsd_data'') \<and>
      (data (tensor_list (rhs e)) = [] \<longrightarrow>
         map_of (datasets a') ''rhsd_offsets'' = map_of (datasets a) ''rhsd_offsets'' \<and>
         map_of (datasets a') ''rhsd_data'' = map_of (datasets a) ''rhsd_data'')) \<and>
   (columns f0 = Map.empty \<longrightarrow>
      (\<exists>a' f. append_edges_all (FileEdgeAppender_init f0) es = Inr a' \<and>
           FileEdgeAppender_exit a' = Inr f \<and>
           ((\<forall>e \<in> set es. data (tensor_list (lhs e)) = []) \<longrightarrow>
              columns f ''lhsd_offsets'' = None \<and> columns f ''lhsd_data'' = None) \<and>
           ((\<forall>e \<in> set es. data (tensor_list (rhs e)) = []) \<longrightarrow>
              columns f ''rhsd_offsets'' = None \<and> columns f ''rhsd_data'' = None))) \<and>
   ((columns f (key @ ''_offsets'') = None \<or> columns f (key @ ''_data'') = None) \<longrightarrow>
      begin \<le> end \<longrightarrow>
      read_dynamic f key begin end =
        Inr \<lparr> offsets = replicate (nat (end - begin + 1)) 0, data = [] \<rparr>)"
  using append_edges_frame[of a e] shard_without_dynamic_columns[of f0 es]
        read_dynamic_missing[of f key "begin" "end"]
  by blast

theorem dynamic_column_omission_witness:
  "\<exists>a' f. append_edges_all (FileEdgeAppender_init empty_h5file)
             [\<lparr> lhs = \<lparr> tensor = [0, 1], tensor_list = ragged [[], []] \<rparr>,
                rhs = \<lparr> tensor = [1, 2], tensor_list = ragged [[], []] \<rparr>,
                rel = [0, 0] \<rparr>] = Inr a' \<and>
          FileEdgeAppender_exit a' = Inr f \<and>
          columns f ''lhsd_offsets'' = None \<and> columns f ''lhsd_data'' = None \<and>
          columns f ''rhsd_offsets'' = None \<and> columns f ''rhsd_data'' = None \<and>
          read_dynamic f ''lhsd'' 0 2 = Inr \<lparr> offsets = [0, 0, 0], data = [] \<rparr>"
proof -
  define e0 where "e0 = \<lparr> lhs = \<lparr> tensor = [0, 1], tensor_list = ragged [[], []] \<rparr>,
                rhs = \<lparr> tensor = [1, 2], tensor_list = ragged [[], []] \<rparr>,
                rel = [0::int, 0] \<rparr>"
  have h0: "columns empty_h5file = Map.empty" by (simp add: empty_h5file_def)
  have h1: "\<forall>e \<in> set [e0]. data (tensor_list (lhs e)) = []" by (simp add: e0_def ragged_def)
  have h2: "\<forall>e \<in> set [e0]. data (tensor_list (rhs e)) = []" by (simp add: e0_def ragged_def)
  from dynamic_column_omission[of _ _ empty_h5file "[e0]"] h0 h1 h2
  obtain a' f where s: "append_edges_all (FileEdgeAppender_init empty_h5file) [e0] = Inr a'"
     "FileEdgeAppender_exit a' = Inr f"
     "columns f ''lhsd_offsets'' = None" "columns f ''lhsd_data'' = None"
     "columns f ''rhsd_offsets'' = None" "columns f ''rhsd_data'' = None" by blast
  have h3: "columns f (''lhsd'' @ ''_offsets'') = None \<or> columns f (''lhsd'' @ ''_data'') = None"
    using s(3) by simp
  have h4: "(0::int) \<le> 2" by simp
  from dynamic_column_omission[of _ _ _ _ f "''lhsd''" 0 2] h3 h4
  have "read_dynamic f ''lhsd'' 0 2 = Inr \<lparr> offsets = replicate (nat (2 - 0 + 1)) 0, data = [] \<rparr>"
    by blast
  then have "read_dynamic f ''lhsd'' 0 2 = Inr \<lparr> offsets = [0, 0, 0], data = [] \<rparr>"
    by (simp add: numeral_3_eq_3)
  with s show ?thesis unfolding e0_def by blast
qed

section \<open>The metadata store: proofs\<close>

declare str_nat.simps [simp del]

lemma of_char_digit_char: "d < 10 \<Longrightarrow> (of_char (digit_char d) :: nat) = 48 + d"
  by (simp add: digit_char_def)

lemma is_digit_digit_char: "d < 10 \<Longrightarrow> is_digit (digit_char d)"
  by (simp add: is_digit_def of_char_digit_char)

lemma digit_value_digit_char: "d < 10 \<Longrightarrow> digit_value (digit_char d) = d"
  by (simp add: digit_value_def of_char_digit_char)

lemma str_nat_digits: "\<forall>c \<in> set (str_nat n). is_digit c"
proof (induction n rule: str_nat.induct)
  case (1 n)
  show ?case
  proof (cases "n < 10")
    case True
    then show ?thesis by (subst str_nat.simps) (simp add: is_digit_digit_char)
  next
    case False
    then show ?thesis using 1 by (subst str_nat.simps) (simp add: is_digit_digit_char)
  qed
qed

lemma str_nat_nonempty: "str_nat n \<noteq> []"
  by (subst str_nat.simps) simp

lemma digits_value_digits:
  "\<forall>c \<in> set ds. is_digit c \<Longrightarrow> digits_value acc ds = Some (dec_value acc ds)"
  by (induction ds arbitrary: acc) (simp_all add: dec_value_def)

lemma dec_value_str_nat: "dec_value 0 (str_nat n) = n"
proof (induction n rule: str_nat.induct)
  case (1 n)
  show ?case
  proof (cases "n < 10")
    case True
    then show ?thesis by (subst str_nat.simps) (simp add: dec_value_def digit_value_digit_char)
  next
    case False
    then have "dec_value 0 (str_nat (n div 10)) = n div 10" using 1 by simp
    then show ?thesis using False
      by (subst str_nat.simps) (simp add: dec_value_def digit_value_digit_char)
  qed
qed

lemma parse_nat_digits:
  assumes "ds \<noteq> []" "\<forall>c \<in> set ds. is_digit c"
  shows "parse_nat ds = Some (dec_value 0 ds)"
proof -
  obtain c cs where ds: "ds = c # cs" using assms(1) by (cases ds) auto
  have "digits_value (digit_value c) cs = Some (dec_value (digit_value c) cs)"
    using assms(2) by (intro digits_value_digits) (simp add: ds)
  then show ?thesis using assms(2) by (simp add: parse_nat_def ds dec_value_def)
qed

lemma parse_nat_str_nat: "parse_nat (str_nat n) = Some n"
  using parse_nat_digits[OF str_nat_nonempty str_nat_digits, of n] by (simp add: dec_value_str_nat)

lemma is_digit_not_space: "is_digit c \<Longrightarrow> \<not> is_space c"
  by (auto simp: is_digit_def is_space_def)

lemma is_digit_not_sign: "is_digit c \<Longrightarrow> c \<noteq> CHR ''-'' \<and> c \<noteq> CHR ''+'' \<and> c \<noteq> newline"
  by (auto simp: is_digit_def newline_def)

lemma dropWhile_no_space: "\<forall>c \<in> set s. \<not> is_space c \<Longrightarrow> dropWhile is_space s = s"
  by (cases s) auto

lemma strip_no_space:
  assumes "\<forall>c \<in> set s. \<not> is_space c"
  shows "strip s = s"
proof -
  have "dropWhile is_space s = s" using assms by (cases s) auto
  moreover have "dropWhile is_space (rev s) = rev s" by (rule dropWhile_no_space) (use assms in simp)
  ultimately show ?thesis by (simp add: strip_def)
qed

lemma strip_trailing_newline:
  assumes "s \<noteq> []" "\<forall>c \<in> set s. \<not> is_space c"
  shows "strip (s @ [newline]) = s"
proof -
  have sp: "is_space newline" by (simp add: is_space_def newline_def)
  have "dropWhile is_space (s @ [newline]) = s @ [newline]"
    using assms by (cases s) auto
  moreover have "dropWhile is_space (rev s) = rev s"
    by (rule dropWhile_no_space) (use assms(2) in simp)
  ultimately show ?thesis using sp by (simp add: strip_def)
qed

lemma str_int_no_space: "\<forall>c \<in> set (str_int i). \<not> is_space c"
  using str_nat_digits is_digit_not_space by (auto simp: str_int_def is_space_def)

lemma str_int_nonempty: "str_int i \<noteq> []"
  by (simp add: str_int_def str_nat_nonempty)

lemma str_int_no_newline: "newline \<notin> set (str_int i)"
  using str_int_no_space[of i] by (auto simp: is_space_def newline_def)

lemma length_str_nat: "0 < k \<Longrightarrow> (length (str_nat n) \<le> k) = (n < 10 ^ k)"
proof (induction n arbitrary: k rule: str_nat.induct)
  case (1 n)
  obtain j where k: "k = Suc j" using 1(2) by (cases k) auto
  show ?case
  proof (cases "n < 10")
    case True
    have "(10::nat) ^ 1 \<le> 10 ^ k" by (rule power_increasing) (use 1(2) in simp_all)
    then have "n < 10 ^ k" using True by simp
    moreover have "length (str_nat n) = 1" using True by (subst str_nat.simps) simp
    ultimately show ?thesis using 1(2) by simp
  next
    case False
    have len: "length (str_nat n) = Suc (length (str_nat (n div 10)))"
      using False by (subst str_nat.simps) simp
    show ?thesis
    proof (cases j)
      case 0
      then show ?thesis using False len k str_nat_nonempty[of "n div 10"] by simp
    next
      case (Suc i)
      have "(length (str_nat (n div 10)) \<le> j) = (n div 10 < 10 ^ j)"
        by (rule 1(1)[OF False]) (simp add: Suc)
      moreover have "(n div 10 < 10 ^ j) = (n < 10 * 10 ^ j)"
        by (simp add: div_less_iff_less_mult mult.commute)
      ultimately show ?thesis using len k by simp
    qed
  qed
qed

lemma MAX_STR_DIGITS_pos: "0 < MAX_STR_DIGITS"
  by (simp add: MAX_STR_DIGITS_def)

lemma str_nat_within_limit:
  "(length (str_nat (nat \<bar>i\<bar>)) \<le> MAX_STR_DIGITS) = (\<bar>i\<bar> < 10 ^ MAX_STR_DIGITS)"
proof -
  have "(nat \<bar>i\<bar> < 10 ^ MAX_STR_DIGITS) = (\<bar>i\<bar> < int (10 ^ MAX_STR_DIGITS))"
    by (rule nat_less_iff) simp
  then show ?thesis using length_str_nat[OF MAX_STR_DIGITS_pos, of "nat \<bar>i\<bar>"] by simp
qed

lemma format_int_ok: "\<bar>i\<bar> < 10 ^ MAX_STR_DIGITS \<Longrightarrow> format_int i = Inr (str_int i)"
  using str_nat_within_limit[of i] by (simp add: format_int_def)

lemma format_int_too_long: "10 ^ MAX_STR_DIGITS \<le> \<bar>i\<bar> \<Longrightarrow> format_int i = Inl ValueError"
  using str_nat_within_limit[of i] by (simp add: format_int_def)

lemma filter_digits: "\<forall>c \<in> set ds. is_digit c \<Longrightarrow> filter is_digit ds = ds"
  by (induction ds) simp_all

lemma int_of_str_str_int:
  assumes lim: "\<bar>i\<bar> < 10 ^ MAX_STR_DIGITS"
  shows "int_of_str (str_int i) = Inr i"
proof -
  have len: "\<not> MAX_STR_DIGITS < length (filter is_digit (str_nat (nat \<bar>i\<bar>)))"
    using str_nat_within_limit[of i] lim filter_digits[OF str_nat_digits, of "nat \<bar>i\<bar>"] by simp
  show ?thesis
  proof (cases "i < 0")
    case True
    then have a: "nat \<bar>i\<bar> = nat (- i)" by simp
    have "strip (str_int i) = CHR ''-'' # str_nat (nat (- i))"
      using strip_no_space[OF str_int_no_space, of i] True by (simp add: str_int_def)
    then show ?thesis using True len[unfolded a] by (simp add: int_of_str_def parse_nat_str_nat)
  next
    case False
    then have a: "nat \<bar>i\<bar> = nat i" by simp
    have s: "strip (str_int i) = str_nat (nat i)"
      using strip_no_space[OF str_int_no_space, of i] False by (simp add: str_int_def)
    obtain c cs where cs: "str_nat (nat i) = c # cs"
      using str_nat_nonempty[of "nat i"] by (cases "str_nat (nat i)") auto
    have "is_digit c" using str_nat_digits[of "nat i"] by (simp add: cs)
    then have "c \<noteq> CHR ''-''" "c \<noteq> CHR ''+''" using is_digit_not_sign by blast+
    then show ?thesis using False parse_nat_str_nat[of "nat i"] len[unfolded a, unfolded cs]
      by (simp add: int_of_str_def s cs)
  qed
qed

lemma int_of_str_not_missing: "int_of_str s \<noteq> Inl CouldNotLoadData"
  by (simp add: int_of_str_def Let_def split: prod.splits option.splits)

lemma int_of_str_empty: "int_of_str [] = Inl ValueError"
  by (simp add: int_of_str_def strip_def parse_nat_def)

lemma save_count_ok:
  "\<bar>n\<bar> < 10 ^ MAX_STR_DIGITS \<Longrightarrow> save_count fs p n = (fs(p \<mapsto> str_int n @ [newline]), None)"
  by (simp add: save_count_def format_int_ok)

lemma save_count_too_long:
  "10 ^ MAX_STR_DIGITS \<le> \<bar>n\<bar> \<Longrightarrow> save_count fs p n = (fs(p \<mapsto> []), Some ValueError)"
  by (simp add: save_count_def format_int_too_long)

lemma load_count_save_count:
  assumes "\<bar>n\<bar> < 10 ^ MAX_STR_DIGITS"
  shows "load_count (fst (save_count fs p n)) p = Inr n"
  using strip_trailing_newline[OF str_int_nonempty str_int_no_space, of n]
  by (simp add: load_count_def save_count_ok[OF assms] int_of_str_str_int[OF assms])

lemma load_count_save_count_too_long:
  assumes "10 ^ MAX_STR_DIGITS \<le> \<bar>n\<bar>"
  shows "load_count (fst (save_count fs p n)) p = Inl ValueError"
  by (simp add: load_count_def save_count_too_long[OF assms] int_of_str_empty strip_def)

lemma load_count_missing: "(load_count fs p = Inl CouldNotLoadData) = (fs p = None)"
  by (cases "fs p") (simp_all add: load_count_def int_of_str_not_missing)

lemma load_names_missing: "(load_names json_load fs p = Inl CouldNotLoadData) = (fs p = None)"
  by (cases "fs p") (simp_all add: load_names_def split: option.splits)

lemma below_limit: "\<bar>n\<bar> < 100 \<Longrightarrow> \<bar>n :: int\<bar> < 10 ^ MAX_STR_DIGITS"
proof -
  assume a: "\<bar>n\<bar> < 100"
  have "(10::int) ^ 2 \<le> 10 ^ MAX_STR_DIGITS"
    by (rule power_increasing) (simp_all add: MAX_STR_DIGITS_def)
  then show ?thesis using a by simp
qed

text \<open>
  Claim C7 (amended). \<open>load_count\<close> and \<open>load_names\<close> raise \<open>CouldNotLoadData\<close> exactly when
  the file is absent. For every integer \<open>n\<close> of at most 4300 decimal digits, negative
  ones included, \<open>save_count\<close> raises nothing and writes the decimal text of \<open>n\<close> and a
  newline, the text holds no other newline, and \<open>load_count\<close> of the path then returns
  \<open>n\<close>. For every integer of more digits \<open>save_count\<close> raises \<open>ValueError\<close> and leaves an
  empty file, on which \<open>load_count\<close> raises \<open>ValueError\<close>.
\<close>

theorem count_file_round_trip:
  "(load_count fs p = Inl CouldNotLoadData) = (fs p = None) \<and>
   (load_names json_load fs p = Inl CouldNotLoadData) = (fs p = None) \<and>
   (\<bar>n\<bar> < 10 ^ MAX_STR_DIGITS \<longrightarrow>
      save_count fs p n = (fs(p \<mapsto> str_int n @ [newline]), None) \<and>
      newline \<notin> set (str_int n) \<and>
      load_count (fst (save_count fs p n)) p = Inr n) \<and>
   (10 ^ MAX_STR_DIGITS \<le> \<bar>n\<bar> \<longrightarrow>
      save_count fs p n = (fs(p \<mapsto> []), Some ValueError) \<and>
      load_count (fst (save_count fs p n)) p = Inl ValueError)"
  using load_count_missing[of fs p] load_names_missing[of json_load fs p]
        str_int_no_newline[of n] load_count_save_count[of n fs p] save_count_ok[of n fs p]
        save_count_too_long[of n fs p] load_count_save_count_too_long[of n fs p]
  by simp

theorem count_file_round_trip_witness:
  "save_count Map.empty [''count.txt''] 42 = ([[''count.txt''] \<mapsto> str_int 42 @ [newline]], None) \<and>
   load_count (fst (save_count Map.empty [''count.txt''] 42)) [''count.txt''] = Inr 42 \<and>
   save_count Map.empty [''count.txt''] (10 ^ 4301) = ([[''count.txt''] \<mapsto> []], Some ValueError)"
proof -
  have small: "\<bar>42 :: int\<bar> < 10 ^ MAX_STR_DIGITS" by (rule below_limit) simp
  have "(10::int) ^ MAX_STR_DIGITS \<le> 10 ^ 4301"
    by (rule power_increasing) (simp_all add: MAX_STR_DIGITS_def)
  then have large: "(10::int) ^ MAX_STR_DIGITS \<le> \<bar>10 ^ 4301\<bar>"
    by (simp only: power_abs abs_numeral)
  show ?thesis
    using count_file_round_trip[of Map.empty "[''count.txt'']" undefined 42]
          count_file_round_trip[of Map.empty "[''count.txt'']" undefined "10 ^ 4301"]
          small large
    by blast
qed

text \<open>
  The count \<open>10^4300\<close> has 4301 digits: \<open>save_count\<close> raises \<open>ValueError\<close>, the file is
  left empty and \<open>load_count\<close> does not return the count.
\<close>

theorem count_file_counterexample:
  "(0::int) \<le> 10 ^ 4300 \<and>
   save_count Map.empty [''count.txt''] (10 ^ 4300) = ([[''count.txt''] \<mapsto> []], Some ValueError) \<and>
   load_count (fst (save_count Map.empty [''count.txt''] (10 ^ 4300))) [''count.txt''] = Inl ValueError"
proof -
  have a: "(10::int) ^ MAX_STR_DIGITS \<le> \<bar>10 ^ 4300\<bar>"
    unfolding MAX_STR_DIGITS_def by (simp only: power_abs abs_numeral order_refl)
  have "(0::int) \<le> 10 ^ 4300" by (rule zero_le_power) simp
  then show ?thesis
    using save_count_too_long[OF a, of Map.empty "[''count.txt'']"]
          load_count_save_count_too_long[OF a, of Map.empty "[''count.txt'']"]
    by (simp only: simp_thms)
qed

text \<open>
  Claim C10. \<open>FileRelationTypeStorage.has_count\<close> returns a boolean: it is true exactly
  when the relation-type count file exists, as \<open>FileEntityStorage.has_count\<close> is for its
  count file. It is true exactly when \<open>load_count\<close> does not raise \<open>CouldNotLoadData\<close>,
  and it is true after \<open>save_count\<close>, whether or not that raised.
\<close>

theorem relation_type_has_count:
  "FileRelationTypeStorage_has_count fs self_path =
     (fs (FileRelationTypeStorage_get_count_file self_path) \<noteq> None) \<and>
   FileEntityStorage_has_count fs self_path entity_name part =
     (fs (FileEntityStorage_get_count_file self_path entity_name part) \<noteq> None) \<and>
   FileRelationTypeStorage_has_count fs self_path =
     (FileRelationTypeStorage_load_count fs self_path \<noteq> Inl CouldNotLoadData) \<and>
   FileRelationTypeStorage_has_count
     (fst (FileRelationTypeStorage_save_count fs self_path count)) self_path"
  using load_count_missing[of fs "FileRelationTypeStorage_get_count_file self_path"]
  by (simp add: FileRelationTypeStorage_has_count_def FileEntityStorage_has_count_def is_file_def
      FileRelationTypeStorage_load_count_def FileRelationTypeStorage_save_count_def save_count_def
      split: sum.splits)

lemma str_int_example: "str_int 42 = ''42''" by code_simp
lemma str_int_negative_example: "str_int (-7) = ''-7''" by code_simp
lemma int_of_str_example: "int_of_str '' +1_000 '' = Inr 1000" by (simp add: int_of_str_def strip_def is_space_def parse_nat_def is_digit_def digit_value_def MAX_STR_DIGITS_def)
lemma int_of_str_error_example: "int_of_str ''1__0'' = Inl ValueError" by (simp add: int_of_str_def strip_def is_space_def parse_nat_def is_digit_def digit_value_def)

lemma int_of_str_leading_zeros_example: "int_of_str ''007'' = Inr 7" by (simp add: int_of_str_def strip_def is_space_def parse_nat_def is_digit_def digit_value_def MAX_STR_DIGITS_def)
section \<open>True division and chunk boundaries: proofs\<close>

lemma round_half_even_of_int [simp]: "round_half_even (of_int n) = n"
  by (simp add: round_half_even_def)

lemma round_half_even_bounds:
  "of_int (round_half_even x) \<le> x + 1 / 2" "x - 1 / 2 \<le> of_int (round_half_even x)"
proof -
  define f where "f = \<lfloor>x\<rfloor>"
  have f: "of_int f \<le> x" "x < of_int f + 1" unfolding f_def by linarith+
  have r: "round_half_even x =
      (if x - of_int f < 1 / 2 then f else if x - of_int f > 1 / 2 then f + 1
       else if even f then f else f + 1)"
    by (simp add: round_half_even_def Let_def f_def)
  show "of_int (round_half_even x) \<le> x + 1 / 2" using f unfolding r by (auto split: if_splits)
  show "x - 1 / 2 \<le> of_int (round_half_even x)" using f unfolding r by (auto split: if_splits)
qed

lemma round_half_even_mono:
  assumes "x \<le> y"
  shows "round_half_even x \<le> round_half_even y"
proof (cases "\<lfloor>x\<rfloor> = \<lfloor>y\<rfloor>")
  case True
  then show ?thesis using assms by (auto simp: round_half_even_def Let_def)
next
  case False
  then have "\<lfloor>x\<rfloor> + 1 \<le> \<lfloor>y\<rfloor>" using floor_mono[OF assms] by linarith
  moreover have "round_half_even x \<le> \<lfloor>x\<rfloor> + 1" by (simp add: round_half_even_def Let_def)
  moreover have "\<lfloor>y\<rfloor> \<le> round_half_even y" by (simp add: round_half_even_def Let_def)
  ultimately show ?thesis by linarith
qed

lemma two_powi_pos [simp]: "0 < power_int (2::rat) n"
  by simp

lemma two_powi_mono: "m \<le> n \<Longrightarrow> power_int (2::rat) m \<le> power_int 2 n"
  by (rule power_int_increasing) simp_all

lemma two_powi_Suc: "power_int (2::rat) (n + 1) = 2 * power_int 2 n"
  by (simp add: power_int_add)

lemma ilog2_bounds:
  assumes "0 < x"
  shows "power_int 2 (ilog2 x) \<le> x" and "x < power_int 2 (ilog2 x + 1)"
proof -
  obtain a b where q: "quotient_of x = (a, b)" by (cases "quotient_of x")
  have b: "0 < b" using quotient_of_denom_pos[OF q] .
  have x: "x = of_int a / of_int b" using quotient_of_div[OF q] .
  have a: "0 < a" using assms b by (simp add: x zero_less_divide_iff)
  define la where "la = bitlen a"
  define lb where "lb = bitlen b"
  have la: "2 ^ nat (la - 1) \<le> a" "a < 2 ^ nat la" using bitlen_bounds[OF a] by (simp_all add: la_def)
  have lb: "2 ^ nat (lb - 1) \<le> b" "b < 2 ^ nat lb" using bitlen_bounds[OF b] by (simp_all add: lb_def)
  have la1: "1 \<le> la" using a by (simp add: la_def bitlen_alt_def)
  have lb1: "1 \<le> lb" using b by (simp add: lb_def bitlen_alt_def)
  have ra: "power_int 2 (la - 1) \<le> (of_int a :: rat)" "(of_int a :: rat) < power_int 2 la"
  proof -
    have "(of_int (2 ^ nat (la - 1)) :: rat) \<le> of_int a" using la(1) by (simp only: of_int_le_iff)
    then show "power_int 2 (la - 1) \<le> (of_int a :: rat)" using la1 by (simp add: power_int_def)
    have "(of_int a :: rat) < of_int (2 ^ nat la)" using la(2) by (simp only: of_int_less_iff)
    then show "(of_int a :: rat) < power_int 2 la" using la1 by (simp add: power_int_def)
  qed
  have rb: "power_int 2 (lb - 1) \<le> (of_int b :: rat)" "(of_int b :: rat) < power_int 2 lb"
  proof -
    have "(of_int (2 ^ nat (lb - 1)) :: rat) \<le> of_int b" using lb(1) by (simp only: of_int_le_iff)
    then show "power_int 2 (lb - 1) \<le> (of_int b :: rat)" using lb1 by (simp add: power_int_def)
    have "(of_int b :: rat) < of_int (2 ^ nat lb)" using lb(2) by (simp only: of_int_less_iff)
    then show "(of_int b :: rat) < power_int 2 lb" using lb1 by (simp add: power_int_def)
  qed
  have bpos: "0 < (of_int b :: rat)" using b by simp
  have up: "x < power_int 2 (la - lb + 1)"
  proof -
    have "x * of_int b = of_int a" using bpos by (simp add: x)
    also have "\<dots> < power_int 2 la" by (rule ra(2))
    also have "\<dots> = power_int 2 (la - lb + 1) * power_int 2 (lb - 1)"
      by (simp add: power_int_add[symmetric])
    also have "\<dots> \<le> power_int 2 (la - lb + 1) * of_int b"
      using rb(1) by (intro mult_left_mono) simp_all
    finally show ?thesis using bpos by simp
  qed
  have low: "power_int 2 (la - lb - 1) \<le> x"
  proof -
    have "power_int (2::rat) (la - lb - 1) * of_int b \<le> power_int 2 (la - lb - 1) * power_int 2 lb"
      using rb(2) by (intro mult_left_mono) simp_all
    also have "\<dots> = power_int 2 (la - 1)" by (simp add: power_int_add[symmetric])
    also have "\<dots> \<le> of_int a" by (rule ra(1))
    also have "\<dots> = x * of_int b" using bpos by (simp add: x)
    finally show ?thesis using bpos by simp
  qed
  have il: "ilog2 x = (if power_int 2 (la - lb) \<le> x then la - lb else la - lb - 1)"
    by (simp add: ilog2_def q la_def lb_def Let_def)
  show "power_int 2 (ilog2 x) \<le> x" using low by (simp add: il)
  show "x < power_int 2 (ilog2 x + 1)" using up by (auto simp: il)
qed

lemma ilog2_unique:
  assumes "power_int 2 e \<le> x" "x < power_int 2 (e + 1)"
  shows "ilog2 x = e"
proof -
  have x: "0 < x" using assms(1) two_powi_pos[of e] by linarith
  note b = ilog2_bounds[OF x]
  have "\<not> ilog2 x < e"
  proof
    assume "ilog2 x < e"
    then have "power_int (2::rat) (ilog2 x + 1) \<le> power_int 2 e" by (intro two_powi_mono) simp
    then show False using b(2) assms(1) by linarith
  qed
  moreover have "\<not> e < ilog2 x"
  proof
    assume "e < ilog2 x"
    then have "power_int (2::rat) (e + 1) \<le> power_int 2 (ilog2 x)" by (intro two_powi_mono) simp
    then show False using b(1) assms(2) by linarith
  qed
  ultimately show ?thesis by linarith
qed

lemma ilog2_mono:
  assumes "0 < x" "x \<le> y"
  shows "ilog2 x \<le> ilog2 y"
proof (rule ccontr)
  assume "\<not> ilog2 x \<le> ilog2 y"
  then have "power_int (2::rat) (ilog2 y + 1) \<le> power_int 2 (ilog2 x)" by (intro two_powi_mono) simp
  moreover have "y < power_int 2 (ilog2 y + 1)" using assms by (intro ilog2_bounds) simp
  moreover have "power_int 2 (ilog2 x) \<le> x" using assms by (intro ilog2_bounds)
  ultimately show False using assms(2) by linarith
qed

lemma float_round_pos:
  assumes "0 < x"
  shows "float_round x =
           of_int (round_half_even (x / power_int 2 (max (ilog2 x) (- 1022) - 52))) *
           power_int 2 (max (ilog2 x) (- 1022) - 52)"
  using assms by (simp add: float_round_def Let_def)

lemma two_powi_add: "power_int (2::rat) (m + n) = power_int 2 m * power_int 2 n"
  by (rule power_int_add) simp

lemma two_powi_nat: "0 \<le> n \<Longrightarrow> power_int (2::rat) n = of_int (2 ^ nat n)"
  by (simp add: power_int_def)

lemma two_powi_53: "power_int (2::rat) (e + 1) = of_int (2 ^ 53) * power_int 2 (e - 52)"
proof -
  have "e + 1 = 53 + (e - 52)" by arith
  then have "power_int (2::rat) (e + 1) = power_int 2 (53 + (e - 52))" by (rule arg_cong)
  also have "\<dots> = power_int 2 53 * power_int 2 (e - 52)" by (rule two_powi_add)
  also have "power_int (2::rat) 53 = of_int (2 ^ 53)" by simp
  finally show ?thesis .
qed

lemma two_powi_52: "power_int (2::rat) e = of_int (2 ^ 52) * power_int 2 (e - 52)"
proof -
  have "e = 52 + (e - 52)" by arith
  then have "power_int (2::rat) e = power_int 2 (52 + (e - 52))" by (rule arg_cong)
  also have "\<dots> = power_int 2 52 * power_int 2 (e - 52)" by (rule two_powi_add)
  also have "power_int (2::rat) 52 = of_int (2 ^ 52)" by simp
  finally show ?thesis .
qed

lemma round_half_even_le:
  assumes "x \<le> of_int n"
  shows "round_half_even x \<le> n"
  using round_half_even_mono[OF assms] by simp

lemma round_half_even_ge:
  assumes "of_int n \<le> x"
  shows "n \<le> round_half_even x"
  using round_half_even_mono[OF assms] by simp

lemma float_round_upper:
  assumes "0 < x" and e: "e = max (ilog2 x) (- 1022)"
  shows "float_round x \<le> power_int 2 (e + 1)"
proof -
  define u where "u = power_int (2::rat) (e - 52)"
  define r where "r = round_half_even (x / u)"
  have u: "0 < u" by (simp add: u_def)
  have "x < power_int 2 (ilog2 x + 1)" by (rule ilog2_bounds[OF assms(1)])
  also have "\<dots> \<le> power_int 2 (e + 1)" by (rule two_powi_mono) (simp add: e)
  also have "\<dots> = of_int (2 ^ 53) * u" unfolding u_def by (rule two_powi_53)
  finally have "x / u \<le> of_int (2 ^ 53)" using u by (simp only: pos_divide_le_eq)
  then have "r \<le> 2 ^ 53" unfolding r_def by (rule round_half_even_le)
  then have "(of_int r :: rat) \<le> of_int (2 ^ 53)" by (simp only: of_int_le_iff)
  then have "of_int r * u \<le> of_int (2 ^ 53) * u"
    using u by (intro mult_right_mono) (simp_all only: less_imp_le)
  also have "\<dots> = power_int 2 (e + 1)" unfolding u_def by (rule two_powi_53[symmetric])
  finally have "of_int r * u \<le> power_int 2 (e + 1)" .
  moreover have "float_round x = of_int r * u"
    by (simp only: float_round_pos[OF assms(1)] e[symmetric] u_def r_def)
  ultimately show ?thesis by (simp only:)
qed

lemma float_round_lower:
  assumes "0 < x" and e: "- 1022 \<le> ilog2 x"
  shows "power_int 2 (ilog2 x) \<le> float_round x"
proof -
  define u where "u = power_int (2::rat) (ilog2 x - 52)"
  define r where "r = round_half_even (x / u)"
  have u: "0 < u" by (simp add: u_def)
  have m: "max (ilog2 x) (- 1022) = ilog2 x" using e by simp
  have "of_int (2 ^ 52) * u = power_int 2 (ilog2 x)" unfolding u_def by (rule two_powi_52[symmetric])
  also have "\<dots> \<le> x" by (rule ilog2_bounds(1)[OF assms(1)])
  finally have "of_int (2 ^ 52) \<le> x / u" using u by (simp only: pos_le_divide_eq)
  then have "2 ^ 52 \<le> r" unfolding r_def by (rule round_half_even_ge)
  then have "(of_int (2 ^ 52) :: rat) \<le> of_int r" by (simp only: of_int_le_iff)
  then have "of_int (2 ^ 52) * u \<le> of_int r * u"
    using u by (intro mult_right_mono) (simp_all only: less_imp_le)
  moreover have "of_int (2 ^ 52) * u = power_int 2 (ilog2 x)"
    unfolding u_def by (rule two_powi_52[symmetric])
  moreover have "float_round x = of_int r * u"
    by (simp only: float_round_pos[OF assms(1)] m u_def r_def)
  ultimately show ?thesis by (simp only:)
qed

lemma float_round_nonneg:
  assumes "0 \<le> x"
  shows "0 \<le> float_round x"
proof (cases "x = 0")
  case True
  then show ?thesis by (simp add: float_round_def)
next
  case False
  then have x: "0 < x" using assms by simp
  define u where "u = power_int (2::rat) (max (ilog2 x) (- 1022) - 52)"
  have u: "0 < u" by (simp add: u_def)
  have "of_int 0 \<le> x / u" using x u by simp
  then have "0 \<le> round_half_even (x / u)" by (rule round_half_even_ge)
  then show ?thesis using u by (simp add: float_round_pos[OF x] u_def[symmetric])
qed

lemma float_round_mono:
  assumes "0 \<le> x" "x \<le> y"
  shows "float_round x \<le> float_round y"
proof (cases "x = 0")
  case True
  then show ?thesis using float_round_nonneg[of y] assms by (simp add: float_round_def)
next
  case False
  then have x: "0 < x" and y: "0 < y" using assms by simp_all
  define ex where "ex = max (ilog2 x) (- 1022)"
  define ey where "ey = max (ilog2 y) (- 1022)"
  have le: "ex \<le> ey" using ilog2_mono[OF x assms(2)] by (simp add: ex_def ey_def)
  show ?thesis
  proof (cases "ex = ey")
    case True
    define u where "u = power_int (2::rat) (ex - 52)"
    have u: "0 < u" by (simp add: u_def)
    have "x / u \<le> y / u" using assms(2) u by (simp add: divide_le_cancel)
    from round_half_even_mono[OF this]
    have "(of_int (round_half_even (x / u)) :: rat) \<le> of_int (round_half_even (y / u))"
      by (simp only: of_int_le_iff)
    then have "of_int (round_half_even (x / u)) * u \<le> of_int (round_half_even (y / u)) * u"
      using u by (intro mult_right_mono) simp_all
    moreover have "float_round x = of_int (round_half_even (x / u)) * u"
      by (simp only: float_round_pos[OF x] ex_def[symmetric] u_def)
    moreover have "float_round y = of_int (round_half_even (y / u)) * u"
      by (simp only: float_round_pos[OF y] ey_def[symmetric] True[symmetric] u_def)
    ultimately show ?thesis by (simp only:)
  next
    case False
    then have lt: "ex < ey" using le by simp
    have "- 1022 \<le> ex" by (simp add: ex_def)
    then have ey: "ey = ilog2 y" "- 1022 \<le> ilog2 y" using lt by (simp_all add: ey_def)
    have "float_round x \<le> power_int 2 (ex + 1)" by (rule float_round_upper[OF x ex_def])
    also have "\<dots> \<le> power_int 2 (ilog2 y)" using lt ey(1) by (intro two_powi_mono) simp
    also have "\<dots> \<le> float_round y" by (rule float_round_lower[OF y ey(2)])
    finally show ?thesis .
  qed
qed

lemma float_round_exact:
  assumes x: "0 < x" and m: "x = of_int m * power_int 2 (max (ilog2 x) (- 1022) - 52)"
  shows "float_round x = x"
proof -
  define u where "u = power_int (2::rat) (max (ilog2 x) (- 1022) - 52)"
  have u: "0 < u" by (simp add: u_def)
  have xm: "x = of_int m * u" using m by (simp only: u_def)
  have "x / u = of_int m * u / u" using xm by (simp only:)
  then have q: "x / u = of_int m" using u by simp
  have "float_round x = of_int (round_half_even (x / u)) * u"
    by (simp only: float_round_pos[OF x] u_def)
  also have "\<dots> = of_int m * u" by (simp only: q round_half_even_of_int)
  also have "\<dots> = x" by (rule xm[symmetric])
  finally show ?thesis .
qed

lemma float_round_of_int:
  assumes "0 \<le> n" "n \<le> 2 ^ 53"
  shows "float_round (of_int n) = of_int n"
proof (cases "n = 0")
  case True
  then show ?thesis by (simp add: float_round_def)
next
  case False
  then have n: "0 < n" using assms by simp
  define x where "x = (of_int n :: rat)"
  have x: "0 < x" "1 \<le> x" using n by (simp_all add: x_def)
  define e where "e = ilog2 x"
  have le: "power_int 2 e \<le> x" unfolding e_def by (rule ilog2_bounds[OF x(1)])
  have e0: "0 \<le> e"
  proof (rule ccontr)
    assume "\<not> 0 \<le> e"
    then have "power_int (2::rat) (e + 1) \<le> power_int 2 0" by (intro two_powi_mono) simp
    moreover have "x < power_int 2 (e + 1)" unfolding e_def by (rule ilog2_bounds[OF x(1)])
    ultimately show False using x(2) by simp
  qed
  have x53: "x \<le> of_int (2 ^ 53)" unfolding x_def using assms(2) by (simp only: of_int_le_iff)
  have e53: "e \<le> 53"
  proof (rule ccontr)
    assume "\<not> e \<le> 53"
    then have "power_int (2::rat) 54 \<le> power_int 2 e" by (intro two_powi_mono) simp
    then have "power_int (2::rat) 54 \<le> of_int (2 ^ 53)" using le x53 by linarith
    then show False by simp
  qed
  have mx: "max (ilog2 x) (- 1022) = e" using e0 by (simp add: e_def)
  have "\<exists>m. x = of_int m * power_int 2 (e - 52)"
  proof (cases "e \<le> 52")
    case True
    have "power_int (2::rat) (52 - e) * power_int 2 (e - 52) = power_int 2 ((52 - e) + (e - 52))"
      by (rule two_powi_add[symmetric])
    then have one: "power_int (2::rat) (52 - e) * power_int 2 (e - 52) = 1" by simp
    have p: "power_int (2::rat) (52 - e) = of_int (2 ^ nat (52 - e))"
      using True by (intro two_powi_nat) simp
    have "of_int (n * 2 ^ nat (52 - e)) * power_int 2 (e - 52)
          = x * (power_int (2::rat) (52 - e) * power_int 2 (e - 52))"
      by (simp only: of_int_mult p x_def mult.assoc)
    also have "\<dots> = x" by (simp only: one mult_1_right)
    finally show ?thesis by metis
  next
    case False
    then have e: "e = 53" using e53 by simp
    have "of_int (2 ^ 53) \<le> x" using le by (simp add: e)
    then have "x = of_int (2 ^ 53)" using x53 by simp
    also have "\<dots> = power_int 2 53" by simp
    also have "\<dots> = of_int (2 ^ 52) * power_int 2 (53 - 52)" by (rule two_powi_52)
    finally show ?thesis unfolding e by blast
  qed
  then obtain m where "x = of_int m * power_int 2 (max (ilog2 x) (- 1022) - 52)"
    unfolding mx by blast
  from float_round_exact[OF x(1) this] show ?thesis by (simp only: x_def)
qed

lemma float_round_le_half_ulp:
  assumes "0 < x"
  shows "float_round x \<le> x + power_int 2 (max (ilog2 x) (- 1022) - 52) / 2"
proof -
  define u where "u = power_int (2::rat) (max (ilog2 x) (- 1022) - 52)"
  have u: "0 < u" by (simp add: u_def)
  have "of_int (round_half_even (x / u)) \<le> x / u + 1 / 2" by (rule round_half_even_bounds)
  then have "of_int (round_half_even (x / u)) * u \<le> (x / u + 1 / 2) * u"
    using u by (intro mult_right_mono) simp_all
  also have "\<dots> = x + u / 2" using u by (simp add: field_simps)
  finally show ?thesis by (simp only: float_round_pos[OF assms] u_def)
qed

lemma float_round_quotient_less:
  assumes a: "0 \<le> a" "a < 2 ^ 53" and b: "0 < b" and r: "a mod b \<noteq> 0"
  shows "float_round (of_int a / of_int b) < of_int (a div b) + 1"
proof -
  define x where "x = (of_int a / of_int b :: rat)"
  define q where "q = a div b"
  define r where "r = a mod b"
  have r0: "0 \<le> a mod b" using b by (rule pos_mod_sign)
  have rlt: "a mod b < b" using b by (rule pos_mod_bound)
  have rb: "0 < r" "r < b" unfolding r_def using r0 rlt r by linarith+
  have a0: "0 < a" using r a(1) by (cases "a = 0") simp_all
  have bpos: "0 < (of_int b :: rat)" using b by simp
  have x: "0 < x" using a0 b by (simp add: x_def)
  have aq: "a = q * b + r" by (simp add: q_def r_def)
  have xq: "x = of_int q + of_int r / of_int b"
    using bpos by (simp add: x_def aq field_simps)
  have gap: "1 / of_int b \<le> of_int q + 1 - x"
  proof -
    have "of_int q + 1 - x = (of_int b - of_int r) / (of_int b :: rat)"
      using bpos by (simp add: xq field_simps)
    moreover have "(1::rat) \<le> of_int b - of_int r"
    proof -
      have "1 \<le> b - r" using rb by simp
      then have "(of_int 1 :: rat) \<le> of_int (b - r)" by (simp only: of_int_le_iff)
      then show ?thesis by simp
    qed
    ultimately show ?thesis using bpos by (simp add: divide_le_cancel)
  qed
  show ?thesis
  proof (cases "- 1022 \<le> ilog2 x")
    case True
    define u where "u = power_int (2::rat) (ilog2 x - 52)"
    have u: "0 < u" by (simp add: u_def)
    have mx: "max (ilog2 x) (- 1022) = ilog2 x" using True by simp
    have "power_int 2 (ilog2 x) \<le> x" by (rule ilog2_bounds(1)[OF x])
    then have "power_int 2 (ilog2 x) * of_int b \<le> (of_int a :: rat)"
      using bpos by (simp add: x_def pos_le_divide_eq)
    moreover have "(of_int a :: rat) < of_int (2 ^ 53)" using a(2) by (simp only: of_int_less_iff)
    moreover have "power_int 2 (ilog2 x) = of_int (2 ^ 52) * u" unfolding u_def by (rule two_powi_52)
    ultimately have "of_int (2 ^ 52) * u * of_int b < (of_int (2 ^ 53) :: rat)" by (simp only:)
    then have "u * of_int b < 2" by simp
    then have "u / 2 < 1 / of_int b" using bpos by (simp add: field_simps)
    moreover have "float_round x \<le> x + u / 2"
      using float_round_le_half_ulp[OF x] by (simp only: mx u_def)
    ultimately have "float_round x < of_int q + 1" using gap by linarith
    then show ?thesis by (simp only: x_def q_def)
  next
    case False
    then have mx: "max (ilog2 x) (- 1022) = - 1022" by simp
    have "float_round x \<le> power_int 2 (- 1022 + 1)" by (rule float_round_upper[OF x mx[symmetric]])
    also have "\<dots> \<le> power_int 2 0" by (rule two_powi_mono) simp
    finally have "float_round x \<le> 1" by simp
    moreover have "x < power_int 2 (ilog2 x + 1)" by (rule ilog2_bounds(2)[OF x])
    moreover have "power_int (2::rat) (ilog2 x + 1) \<le> power_int 2 0"
      using False by (intro two_powi_mono) simp
    ultimately have x1: "x < 1" by simp
    have "0 \<le> q" using a(1) b by (simp add: q_def pos_imp_zdiv_nonneg_iff)
    have "float_round x \<le> power_int 2 (- 1022 + 1)" by (rule float_round_upper[OF x mx[symmetric]])
    also have "\<dots> \<le> power_int 2 (- 1)" by (rule two_powi_mono) simp
    also have "\<dots> < 1" by (simp add: power_int_minus)
    finally have "float_round x < 1" .
    moreover have "(0::rat) \<le> of_int q" using \<open>0 \<le> q\<close> by simp
    ultimately have "float_round x < of_int q + 1" by linarith
    then show ?thesis by (simp only: x_def q_def)
  qed
qed

lemma py_int_float_round_exact:
  assumes a: "0 \<le> a" "a < 2 ^ 53" and b: "0 < b"
  shows "py_int (float_round (of_int a / of_int b)) = a div b"
proof -
  define x where "x = (of_int a / of_int b :: rat)"
  define q where "q = a div b"
  have bpos: "0 < (of_int b :: rat)" using b by simp
  have q0: "0 \<le> q" using a(1) b by (simp add: q_def pos_imp_zdiv_nonneg_iff)
  have "0 \<le> a mod b" using b by (rule pos_mod_sign)
  then have qb: "q * b \<le> a" unfolding q_def using div_mult_mod_eq[of a b] by linarith
  have "q * 1 \<le> q * b" using q0 b by (intro mult_left_mono) simp_all
  then have qa: "q \<le> a" using qb by simp
  have q53: "q \<le> 2 ^ 53" using qa a(2) by simp
  note qb
  then have "(of_int (q * b) :: rat) \<le> of_int a" by (simp only: of_int_le_iff)
  then have qx: "of_int q \<le> x" using bpos by (simp add: x_def pos_le_divide_eq)
  have lo: "of_int q \<le> float_round x"
    using float_round_mono[OF _ qx] float_round_of_int[OF q0 q53] q0 by simp
  have hi: "float_round x < of_int q + 1"
  proof (cases "a mod b = 0")
    case True
    then have "a = q * b" unfolding q_def using div_mult_mod_eq[of a b] by simp
    then have "x = of_int q" using bpos by (simp add: x_def)
    then show ?thesis using float_round_of_int[OF q0 q53] by simp
  next
    case False
    from float_round_quotient_less[OF a b False] show ?thesis by (simp only: x_def q_def)
  qed
  have "\<lfloor>float_round x\<rfloor> = q" using lo hi by (simp add: floor_unique)
  moreover have "0 \<le> float_round x" using lo q0 by (meson of_int_0_le_iff order_trans)
  ultimately show ?thesis by (simp add: py_int_def x_def q_def)
qed

lemma py_int_mono: "0 \<le> x \<Longrightarrow> x \<le> y \<Longrightarrow> py_int x \<le> py_int y"
  by (simp add: py_int_def floor_mono)

lemma py_int_of_int [simp]: "py_int (of_int n) = n"
  by (simp add: py_int_def)

lemma quotient_le:
  assumes "0 \<le> n" "1 \<le> k" "0 \<le> j" "j \<le> k"
  shows "0 \<le> (of_int (j * n) / of_int k :: rat)" "(of_int (j * n) / of_int k :: rat) \<le> of_int n"
proof -
  have k: "0 < (of_int k :: rat)" using assms(2) by simp
  show "0 \<le> (of_int (j * n) / of_int k :: rat)" using assms by simp
  have "j * n \<le> k * n" using assms by (intro mult_right_mono) simp_all
  then have "(of_int (j * n) :: rat) \<le> of_int (k * n)" by (simp only: of_int_le_iff)
  then show "(of_int (j * n) / of_int k :: rat) \<le> of_int n"
    using k by (simp add: pos_divide_le_eq mult.commute)
qed

lemma py_truediv_chunk:
  assumes "0 \<le> n" "n \<le> 2 ^ 53" "1 \<le> k" "0 \<le> j" "j \<le> k"
  shows "py_truediv (j * n) k = Inr (float_round (of_int (j * n) / of_int k))"
    and "0 \<le> float_round (of_int (j * n) / of_int k)"
    and "float_round (of_int (j * n) / of_int k) \<le> of_int n"
proof -
  define x where "x = (of_int (j * n) / of_int k :: rat)"
  have x: "0 \<le> x" "x \<le> of_int n" unfolding x_def using quotient_le[OF assms(1,3,4,5)] by simp_all
  show nn: "0 \<le> float_round (of_int (j * n) / of_int k)"
    using float_round_nonneg[OF x(1)] by (simp only: x_def)
  have "float_round x \<le> float_round (of_int n)" by (rule float_round_mono[OF x])
  then show le: "float_round (of_int (j * n) / of_int k) \<le> of_int n"
    using float_round_of_int[OF assms(1,2)] by (simp only: x_def)
  have "(of_int n :: rat) \<le> of_int (2 ^ 53)" using assms(2) by (simp only: of_int_le_iff)
  moreover have "(of_int (2 ^ 53) :: rat) < 2 ^ 1024" by simp
  ultimately have "\<bar>float_round (of_int (j * n) / of_int k)\<bar> < 2 ^ 1024"
    using nn le by linarith
  then show "py_truediv (j * n) k = Inr (float_round (of_int (j * n) / of_int k))"
    using assms(3) by (simp add: py_truediv_def Let_def)
qed

lemma chunk_bounds_boundary:
  assumes "0 \<le> n" "n \<le> 2 ^ 53" "1 \<le> k" "0 \<le> i" "i < k"
  shows "chunk_bounds n i k = Inr (boundary n k i, boundary n k (i + 1))"
proof -
  have "py_truediv (i * n) k = Inr (float_round (of_int (i * n) / of_int k))"
    by (rule py_truediv_chunk(1)[OF assms(1,2,3,4)]) (use assms in simp)
  moreover have "py_truediv ((i + 1) * n) k = Inr (float_round (of_int ((i + 1) * n) / of_int k))"
    by (rule py_truediv_chunk(1)[OF assms(1,2,3)]) (use assms in simp_all)
  ultimately show ?thesis by (simp add: chunk_bounds_def boundary_def)
qed

lemma boundary_mono:
  assumes "0 \<le> n" "1 \<le> k" "0 \<le> j" "j \<le> j'"
  shows "boundary n k j \<le> boundary n k j'"
proof -
  have k: "0 < (of_int k :: rat)" using assms(2) by simp
  have "j * n \<le> j' * n" using assms by (intro mult_right_mono) simp_all
  then have "(of_int (j * n) :: rat) \<le> of_int (j' * n)" by (simp only: of_int_le_iff)
  then have le: "(of_int (j * n) / of_int k :: rat) \<le> of_int (j' * n) / of_int k"
    using k by (simp add: divide_le_cancel)
  have nn: "0 \<le> (of_int (j * n) / of_int k :: rat)" using assms by simp
  show ?thesis unfolding boundary_def
    by (intro py_int_mono float_round_mono float_round_nonneg nn le)
qed

lemma boundary_0: "boundary n k 0 = 0"
  by (simp add: boundary_def float_round_def py_int_def)

lemma boundary_last:
  assumes "0 \<le> n" "n \<le> 2 ^ 53" "1 \<le> k"
  shows "boundary n k k = n"
proof -
  have "(of_int (k * n) / of_int k :: rat) = of_int n" using assms(3) by simp
  then show ?thesis using float_round_of_int[OF assms(1,2)] by (simp add: boundary_def)
qed

lemma boundary_exact:
  assumes "0 \<le> n" "1 \<le> k" "0 \<le> j" "j * n < 2 ^ 53"
  shows "boundary n k j = j * n div k"
  unfolding boundary_def by (rule py_int_float_round_exact) (use assms in simp_all)

lemma union_of_consecutive:
  fixes f :: "int \<Rightarrow> int"
  assumes "\<forall>i. 0 \<le> i \<and> i < int m \<longrightarrow> f i \<le> f (i + 1)"
  shows "f 0 \<le> f (int m) \<and> (\<Union>i \<in> {0 ..< int m}. {f i ..< f (i + 1)}) = {f 0 ..< f (int m)}"
  using assms
proof (induction m)
  case 0
  show ?case by simp
next
  case (Suc m)
  have IH: "f 0 \<le> f (int m)" "(\<Union>i \<in> {0 ..< int m}. {f i ..< f (i + 1)}) = {f 0 ..< f (int m)}"
    using Suc.IH Suc.prems by simp_all
  have step: "f (int m) \<le> f (int m + 1)" using Suc.prems by simp
  have s: "{0 ..< int (Suc m)} = insert (int m) {0 ..< int m}" by auto
  have "(\<Union>i \<in> {0 ..< int (Suc m)}. {f i ..< f (i + 1)})
        = {f (int m) ..< f (int m + 1)} \<union> {f 0 ..< f (int m)}"
    unfolding s using IH(2) by simp
  also have "\<dots> = {f 0 ..< f (int m + 1)}" using IH(1) step by auto
  finally show ?case using IH(1) step by (simp add: add.commute)
qed

lemma chunk_range_boundary:
  assumes "0 \<le> n" "n \<le> 2 ^ 53" "1 \<le> k" "0 \<le> i" "i < k"
  shows "chunk_range n i k = {boundary n k i ..< boundary n k (i + 1)}"
  by (simp add: chunk_range_def chunk_bounds_boundary[OF assms])

lemma chunk_tiling_general:
  assumes n0: "0 \<le> num_edges" and n53: "num_edges \<le> 2 ^ 53" and k: "1 \<le> num_chunks"
  shows "(\<forall>i. 0 \<le> i \<and> i < num_chunks \<longrightarrow>
            (\<exists>b e. chunk_bounds num_edges i num_chunks = Inr (b, e) \<and>
                   0 \<le> b \<and> b \<le> e \<and> e \<le> num_edges)) \<and>
         (\<forall>i j. 0 \<le> i \<and> i < j \<and> j < num_chunks \<longrightarrow>
            (\<forall>x \<in> chunk_range num_edges i num_chunks.
               \<forall>y \<in> chunk_range num_edges j num_chunks. x < y)) \<and>
         (\<Union>i \<in> {0 ..< num_chunks}. chunk_range num_edges i num_chunks) = {0 ..< num_edges} \<and>
         (\<forall>i. 0 \<le> i \<and> i < num_chunks \<and> (i + 1) * num_edges < 2 ^ 53 \<longrightarrow>
            chunk_bounds num_edges i num_chunks =
              Inr (i * num_edges div num_chunks, (i + 1) * num_edges div num_chunks))"
proof (intro conjI allI impI)
  fix i assume i: "0 \<le> i \<and> i < num_chunks"
  have b0: "boundary num_edges num_chunks 0 \<le> boundary num_edges num_chunks i"
    by (rule boundary_mono[OF n0 k]) (use i in simp_all)
  have b1: "boundary num_edges num_chunks i \<le> boundary num_edges num_chunks (i + 1)"
    by (rule boundary_mono[OF n0 k]) (use i in simp_all)
  have b2: "boundary num_edges num_chunks (i + 1) \<le> boundary num_edges num_chunks num_chunks"
    by (rule boundary_mono[OF n0 k]) (use i in simp_all)
  show "\<exists>b e. chunk_bounds num_edges i num_chunks = Inr (b, e) \<and> 0 \<le> b \<and> b \<le> e \<and> e \<le> num_edges"
    using chunk_bounds_boundary[OF n0 n53 k, of i] i b0 b1 b2
    by (simp add: boundary_0 boundary_last[OF n0 n53 k])
next
  fix i j assume ij: "0 \<le> i \<and> i < j \<and> j < num_chunks"
  have le: "boundary num_edges num_chunks (i + 1) \<le> boundary num_edges num_chunks j"
    by (rule boundary_mono[OF n0 k]) (use ij in simp_all)
  have ri: "chunk_range num_edges i num_chunks =
      {boundary num_edges num_chunks i ..< boundary num_edges num_chunks (i + 1)}"
    by (rule chunk_range_boundary[OF n0 n53 k]) (use ij in simp_all)
  have rj: "chunk_range num_edges j num_chunks =
      {boundary num_edges num_chunks j ..< boundary num_edges num_chunks (j + 1)}"
    by (rule chunk_range_boundary[OF n0 n53 k]) (use ij in simp_all)
  show "\<forall>x \<in> chunk_range num_edges i num_chunks.
               \<forall>y \<in> chunk_range num_edges j num_chunks. x < y"
    unfolding ri rj using le by auto
next
  define m where "m = nat num_chunks"
  have m: "int m = num_chunks" using k by (simp add: m_def)
  have steps: "\<forall>i. 0 \<le> i \<and> i < int m \<longrightarrow>
      boundary num_edges num_chunks i \<le> boundary num_edges num_chunks (i + 1)"
    using boundary_mono[OF n0 k] by simp
  from union_of_consecutive[OF steps]
  have "(\<Union>i \<in> {0 ..< num_chunks}.
            {boundary num_edges num_chunks i ..< boundary num_edges num_chunks (i + 1)})
        = {boundary num_edges num_chunks 0 ..< boundary num_edges num_chunks num_chunks}"
    by (simp add: m)
  moreover have "(\<Union>i \<in> {0 ..< num_chunks}. chunk_range num_edges i num_chunks)
      = (\<Union>i \<in> {0 ..< num_chunks}.
            {boundary num_edges num_chunks i ..< boundary num_edges num_chunks (i + 1)})"
    using chunk_range_boundary[OF n0 n53 k] by simp
  ultimately show "(\<Union>i \<in> {0 ..< num_chunks}. chunk_range num_edges i num_chunks) = {0 ..< num_edges}"
    by (simp add: boundary_0 boundary_last[OF n0 n53 k])
next
  fix i assume i: "0 \<le> i \<and> i < num_chunks \<and> (i + 1) * num_edges < 2 ^ 53"
  have "i * num_edges \<le> (i + 1) * num_edges" using n0 by (intro mult_right_mono) simp_all
  then have lt: "i * num_edges < 2 ^ 53" using i by simp
  have "boundary num_edges num_chunks i = i * num_edges div num_chunks"
    by (rule boundary_exact[OF n0 k]) (use i lt in simp_all)
  moreover have "boundary num_edges num_chunks (i + 1) = (i + 1) * num_edges div num_chunks"
    by (rule boundary_exact[OF n0 k]) (use i in simp_all)
  ultimately show "chunk_bounds num_edges i num_chunks =
              Inr (i * num_edges div num_chunks, (i + 1) * num_edges div num_chunks)"
    using chunk_bounds_boundary[OF n0 n53 k, of i] i by simp
qed

text \<open>
  Claim C1 (amended). For \<open>0 \<le> num_edges \<le> 2^53\<close> and \<open>num_chunks \<ge> 1\<close>: every chunk
  \<open>0 \<le> i < num_chunks\<close> gets a range \<open>[begin, end)\<close> with \<open>0 \<le> begin \<le> end \<le> num_edges\<close>;
  every index of an earlier chunk is below every index of a later one, so the ranges
  are ordered and pairwise disjoint; and their union is \<open>[0, num_edges)\<close>. Where
  \<open>(i + 1) * num_edges < 2^53\<close> the bounds are the floors
  \<open>i * num_edges div num_chunks\<close> and \<open>(i + 1) * num_edges div num_chunks\<close>. For 10 edges
  in 3 chunks the ranges are \<open>[0,3)\<close>, \<open>[3,6)\<close>, \<open>[6,10)\<close>.
\<close>

theorem chunk_tiling:
  assumes "0 \<le> num_edges" and "num_edges \<le> 2 ^ 53" and "1 \<le> num_chunks"
  shows "(\<forall>i. 0 \<le> i \<and> i < num_chunks \<longrightarrow>
            (\<exists>b e. chunk_bounds num_edges i num_chunks = Inr (b, e) \<and>
                   0 \<le> b \<and> b \<le> e \<and> e \<le> num_edges)) \<and>
         (\<forall>i j. 0 \<le> i \<and> i < j \<and> j < num_chunks \<longrightarrow>
            (\<forall>x \<in> chunk_range num_edges i num_chunks.
               \<forall>y \<in> chunk_range num_edges j num_chunks. x < y)) \<and>
         (\<Union>i \<in> {0 ..< num_chunks}. chunk_range num_edges i num_chunks) = {0 ..< num_edges} \<and>
         (\<forall>i. 0 \<le> i \<and> i < num_chunks \<and> (i + 1) * num_edges < 2 ^ 53 \<longrightarrow>
            chunk_bounds num_edges i num_chunks =
              Inr (i * num_edges div num_chunks, (i + 1) * num_edges div num_chunks))"
  using assms by (rule chunk_tiling_general)

theorem chunk_tiling_witness:
  "chunk_bounds 10 0 3 = Inr (0, 3) \<and> chunk_bounds 10 1 3 = Inr (3, 6) \<and>
   chunk_bounds 10 2 3 = Inr (6, 10) \<and>
   (\<Union>i \<in> {0 ..< 3}. chunk_range 10 i 3) = {0 ..< 10}"
proof -
  have h: "(0::int) \<le> 10" "(10::int) \<le> 2 ^ 53" "(1::int) \<le> 3" by simp_all
  note t = chunk_tiling[OF h]
  have e: "\<forall>i. 0 \<le> i \<and> i < 3 \<and> (i + 1) * 10 < (2 ^ 53 :: int) \<longrightarrow>
            chunk_bounds 10 i 3 = Inr (i * 10 div 3, (i + 1) * 10 div 3)"
    using t by blast
  have "chunk_bounds 10 0 3 = Inr (0, 3)" using e[rule_format, of 0] by simp
  moreover have "chunk_bounds 10 1 3 = Inr (3, 6)" using e[rule_format, of 1] by simp
  moreover have "chunk_bounds 10 2 3 = Inr (6, 10)" using e[rule_format, of 2] by simp
  moreover have "(\<Union>i \<in> {0 ..< 3}. chunk_range 10 i 3) = {0 ..< 10}" using t by blast
  ultimately show ?thesis by blast
qed

text \<open>
  Beyond \<open>2^53\<close> the quotient is rounded before it is truncated: \<open>2^53 + 1\<close> edges read
  as one chunk give the range \<open>[0, 2^53)\<close>, which leaves the last edge out.
\<close>

lemma chunk_bounds_beyond_2_53: "chunk_bounds (2 ^ 53 + 1) 0 1 = Inr (0, 2 ^ 53)"
  by code_simp

theorem chunk_tiling_counterexample:
  "(0::int) \<le> 2 ^ 53 + 1 \<and> (1::int) \<le> 1 \<and>
   chunk_bounds (2 ^ 53 + 1) 0 1 = Inr (0, 2 ^ 53) \<and>
   (\<Union>i \<in> {0 ..< 1}. chunk_range (2 ^ 53 + 1) i 1) \<noteq> {0 ..< 2 ^ 53 + 1}"
proof -
  have s: "{0 ..< (1::int)} = {0}" by auto
  have "(\<Union>i \<in> {0 ..< 1}. chunk_range (2 ^ 53 + 1) i 1) = {0 ..< 2 ^ 53}"
    unfolding s using chunk_bounds_beyond_2_53 by (simp add: chunk_range_def)
  moreover have "{0 ..< (2 ^ 53 :: int)} \<noteq> {0 ..< 2 ^ 53 + 1}" by auto
  ultimately show ?thesis using chunk_bounds_beyond_2_53 by simp
qed

section \<open>Loading a chunk of edges: proofs\<close>








lemma not_exist_message: "last (p @ '' does not exist'') = CHR ''t''"
  by simp


lemma read_column_in_range:
  assumes "0 \<le> b" "b \<le> e" "e \<le> int (length ds)"
  shows "read_column ds (e - b) b e = Inr (slice ds b e)"
proof (cases "0 < e - b")
  case True
  then show ?thesis using read_direct_in_range[OF assms] by (simp add: read_column_def)
next
  case False
  then have "e = b" using assms by simp
  then show ?thesis by (simp add: read_column_def slice_def)
qed

lemma read_dynamic_ok:
  assumes ok: "dynamic_ok f key n" and r: "0 \<le> b" "b \<le> e" "e \<le> int n"
  shows "\<exists>tlist. read_dynamic f key b e = Inr tlist"
proof (cases "columns f (key @ ''_offsets'') = None \<or> columns f (key @ ''_data'') = None")
  case True
  from read_dynamic_missing[OF True r(2)] show ?thesis by blast
next
  case False
  then obtain R where R: "length R = n" "int (length (concat R)) < 2 ^ 63"
      "columns f (key @ ''_offsets'') = Some (offsets_from 0 R)"
      "columns f (key @ ''_data'') = Some (concat R)"
    using ok unfolding dynamic_ok_def by auto
  have "e \<le> int (length R)" using r(3) R(1) by simp
  from read_dynamic_ragged[OF R(3,4) r(1,2) this R(2)] show ?thesis by blast
qed

lemma load_chunk_valid:
  assumes f: "fs (get_edges_file self_path lhs_p rhs_p) = Some f"
    and v: "attrs f FORMAT_VERSION_ATTR = Some FORMAT_VERSION"
    and ok: "valid_shard f"
    and i: "0 \<le> chunk_idx" "chunk_idx < num_chunks"
  shows "\<exists>edges. load_chunk_of_edges fs self_path lhs_p rhs_p chunk_idx num_chunks = Inr edges"
proof -
  from ok obtain lhs_ds rhs_ds rel_ds where c:
      "columns f ''lhs'' = Some lhs_ds" "columns f ''rhs'' = Some rhs_ds"
      "columns f ''rel'' = Some rel_ds"
      "length lhs_ds = length rel_ds" "length rhs_ds = length rel_ds"
      "int (length rel_ds) \<le> 2 ^ 53"
      "dynamic_ok f ''lhsd'' (length rel_ds)" "dynamic_ok f ''rhsd'' (length rel_ds)"
    unfolding valid_shard_def by blast
  define n where "n = int (length rel_ds)"
  have n: "0 \<le> n" "n \<le> 2 ^ 53" using c(6) by (simp_all add: n_def)
  have k: "1 \<le> num_chunks" using i by simp
  have "\<exists>b e. chunk_bounds n chunk_idx num_chunks = Inr (b, e) \<and> 0 \<le> b \<and> b \<le> e \<and> e \<le> n"
    by (rule chunk_tiling_general[OF n k, THEN conjunct1, rule_format]) (use i in simp)
  then obtain b e where be: "chunk_bounds n chunk_idx num_chunks = Inr (b, e)"
      "0 \<le> b" "b \<le> e" "e \<le> n" by blast
  have rl: "read_column lhs_ds (e - b) b e = Inr (slice lhs_ds b e)"
    by (rule read_column_in_range) (use be c(4) in \<open>simp_all add: n_def\<close>)
  have rr: "read_column rhs_ds (e - b) b e = Inr (slice rhs_ds b e)"
    by (rule read_column_in_range) (use be c(5) in \<open>simp_all add: n_def\<close>)
  have re: "read_column rel_ds (e - b) b e = Inr (slice rel_ds b e)"
    by (rule read_column_in_range) (use be in \<open>simp_all add: n_def\<close>)
  have en: "e \<le> int (length rel_ds)" using be(4) by (simp add: n_def)
  from read_dynamic_ok[OF c(7) be(2,3) en] obtain lhsd where
    dl: "read_dynamic f ''lhsd'' b e = Inr lhsd" by blast
  from read_dynamic_ok[OF c(8) be(2,3) en] obtain rhsd where
    dr: "read_dynamic f ''rhsd'' b e = Inr rhsd" by blast
  have "load_chunk_of_edges fs self_path lhs_p rhs_p chunk_idx num_chunks =
          Inr \<lparr> lhs = \<lparr> tensor = slice lhs_ds b e, tensor_list = lhsd \<rparr>,
                rhs = \<lparr> tensor = slice rhs_ds b e, tensor_list = rhsd \<rparr>,
                rel = slice rel_ds b e \<rparr>"
    using be(3) unfolding load_chunk_of_edges_def Let_def
    by (simp add: f v c(1,2,3) be(1)[unfolded n_def] rl rr re dl dr)
  then show ?thesis by blast
qed





lemma load_edges_example:
  "load_edges
     [get_edges_file [''data''] 0 0 \<mapsto>
        \<lparr> attrs = [FORMAT_VERSION_ATTR \<mapsto> FORMAT_VERSION],
          columns = [''lhs'' \<mapsto> [1, 2], ''rhs'' \<mapsto> [3, 4], ''rel'' \<mapsto> [0, 0]] \<rparr>]
     [''data''] 0 0 =
   Inr \<lparr> lhs = \<lparr> tensor = [1, 2], tensor_list = \<lparr> offsets = [0, 0, 0], data = [] \<rparr> \<rparr>,
         rhs = \<lparr> tensor = [3, 4], tensor_list = \<lparr> offsets = [0, 0, 0], data = [] \<rparr> \<rparr>,
         rel = [0, 0] \<rparr>"
proof -
  have h: "(0::int) \<le> 2" "(2::int) \<le> 2 ^ 53" "(1::int) \<le> 1" by simp_all
  have "chunk_bounds 2 0 1 = Inr (0 * 2 div 1, (0 + 1) * 2 div 1)"
    by (rule chunk_tiling_general[OF h, THEN conjunct2, THEN conjunct2, THEN conjunct2, rule_format]) simp
  then have cb: "chunk_bounds 2 0 1 = Inr (0, 2)" by simp
  show ?thesis
    by (simp add: load_edges_def load_chunk_of_edges_def cb read_column_def read_direct_def
        slice_index_def slice_def read_dynamic_def numeral_3_eq_3)
qed

section \<open>The atomic publish of a shard: proofs\<close>

lemma rfind_dot_h5: "rfind_dot (s @ ''.h5'') = int (length s)"
  by (simp add: rfind_dot_def)

lemma path_suffix_h5:
  assumes "s \<noteq> []"
  shows "path_suffix (s @ ''.h5'') = ''.h5''"
proof -
  have "0 < int (length s)" using assms by simp
  then show ?thesis unfolding path_suffix_def Let_def rfind_dot_h5 by simp
qed

lemma path_stem_h5:
  assumes "s \<noteq> []"
  shows "path_stem (s @ ''.h5'') = s"
proof -
  have "0 < int (length s)" using assms by simp
  then show ?thesis unfolding path_stem_def Let_def rfind_dot_h5 by simp
qed

lemma tmp_path_of_edges_file:
  "tmp_path_of (get_edges_file self_path lhs_p rhs_p) =
     joinpath self_path (''edges_'' @ str_int lhs_p @ ''_'' @ str_int rhs_p @ ''.tmp.h5'')"
proof -
  define s where "s = ''edges_'' @ str_int lhs_p @ ''_'' @ str_int rhs_p"
  have s: "s \<noteq> []" by (simp add: s_def)
  have g: "get_edges_file self_path lhs_p rhs_p = joinpath self_path (s @ ''.h5'')"
    unfolding get_edges_file_def s_def by (simp only: append_assoc)
  have t: "tmp_path_of (joinpath self_path (s @ ''.h5'')) = joinpath self_path (s @ ''.tmp'' @ ''.h5'')"
    unfolding tmp_path_of_def joinpath_def
    by (simp only: butlast_snoc last_snoc path_stem_h5[OF s] path_suffix_h5[OF s])
  have e: "s @ ''.tmp'' @ ''.h5'' = ''edges_'' @ str_int lhs_p @ ''_'' @ str_int rhs_p @ ''.tmp.h5''"
    unfolding s_def by simp
  show ?thesis unfolding g t e ..
qed

lemma tmp_path_differs:
  "tmp_path_of (get_edges_file self_path lhs_p rhs_p) \<noteq> get_edges_file self_path lhs_p rhs_p"
proof
  assume a: "tmp_path_of (get_edges_file self_path lhs_p rhs_p) = get_edges_file self_path lhs_p rhs_p"
  have "''edges_'' @ str_int lhs_p @ ''_'' @ str_int rhs_p @ ''.tmp.h5''
             = ''edges_'' @ str_int lhs_p @ ''_'' @ str_int rhs_p @ ''.h5''"
    using a[unfolded tmp_path_of_edges_file, unfolded get_edges_file_def joinpath_def] by simp
  then have "length (''edges_'' @ str_int lhs_p @ ''_'' @ str_int rhs_p @ ''.tmp.h5'')
             = length (''edges_'' @ str_int lhs_p @ ''_'' @ str_int rhs_p @ ''.h5'')"
    by (rule arg_cong)
  then show False by simp
qed

lemma session_start_facts:
  "attrs (hf session_start) FORMAT_VERSION_ATTR = Some FORMAT_VERSION"
  "datasets session_start = []"
  "columns (hf session_start) = Map.empty"
  by (simp_all add: session_start_def FileEdgeAppender_init_def empty_h5file_def Let_def)

lemma save_session_raised:
  assumes "body session_start = (a, Some e)"
  shows "\<exists>f. FileEdgeAppender_exit a = Inr f \<and>
           save_edges_by_appending fs self_path lhs_p rhs_p body =
             (fs(tmp_path_of (get_edges_file self_path lhs_p rhs_p) \<mapsto> f), Some e)"
proof -
  from FileEdgeAppender_exit_spec[of a] obtain f where f: "FileEdgeAppender_exit a = Inr f" by blast
  have "save_edges_by_appending fs self_path lhs_p rhs_p body =
          (fs(tmp_path_of (get_edges_file self_path lhs_p rhs_p) \<mapsto> f), Some e)"
    by (simp add: save_edges_by_appending_def Let_def assms f)
  then show ?thesis using f by blast
qed

lemma save_session_completed:
  assumes "body session_start = (a, None)"
  shows "\<exists>f. FileEdgeAppender_exit a = Inr f \<and> attrs f = attrs (hf a) \<and>
           save_edges_by_appending fs self_path lhs_p rhs_p body =
             (fs(tmp_path_of (get_edges_file self_path lhs_p rhs_p) := None,
                 get_edges_file self_path lhs_p rhs_p \<mapsto> f), None)"
proof -
  from FileEdgeAppender_exit_spec[of a] obtain f where
    f: "FileEdgeAppender_exit a = Inr f" "attrs f = attrs (hf a)" by blast
  have "save_edges_by_appending fs self_path lhs_p rhs_p body =
             (fs(tmp_path_of (get_edges_file self_path lhs_p rhs_p) := None,
                 get_edges_file self_path lhs_p rhs_p \<mapsto> f), None)"
    by (simp add: save_edges_by_appending_def Let_def assms f)
  then show ?thesis using f by blast
qed

lemma atomic_publish_general:
  "tmp_path_of (get_edges_file self_path lhs_p rhs_p) \<noteq> get_edges_file self_path lhs_p rhs_p \<and>
   attrs (hf session_start) FORMAT_VERSION_ATTR = Some FORMAT_VERSION \<and>
   datasets session_start = [] \<and> columns (hf session_start) = Map.empty \<and>
   (\<forall>q. q \<noteq> tmp_path_of (get_edges_file self_path lhs_p rhs_p) \<and>
        q \<noteq> get_edges_file self_path lhs_p rhs_p \<longrightarrow>
        fst (save_edges_by_appending fs self_path lhs_p rhs_p body) q = fs q) \<and>
   save_edges_by_appending (fs(tmp_path_of (get_edges_file self_path lhs_p rhs_p) \<mapsto> stale))
       self_path lhs_p rhs_p body =
     save_edges_by_appending (fs(tmp_path_of (get_edges_file self_path lhs_p rhs_p) := None))
       self_path lhs_p rhs_p body \<and>
   (\<forall>e. snd (body session_start) = Some e \<longrightarrow>
        snd (save_edges_by_appending fs self_path lhs_p rhs_p body) = Some e \<and>
        fst (save_edges_by_appending fs self_path lhs_p rhs_p body)
          (get_edges_file self_path lhs_p rhs_p) = fs (get_edges_file self_path lhs_p rhs_p)) \<and>
   (snd (body session_start) = None \<longrightarrow>
      (\<exists>f. FileEdgeAppender_exit (fst (body session_start)) = Inr f \<and>
           save_edges_by_appending fs self_path lhs_p rhs_p body =
             (fs(tmp_path_of (get_edges_file self_path lhs_p rhs_p) := None,
                 get_edges_file self_path lhs_p rhs_p \<mapsto> f), None)))"
proof -
  define final where "final = get_edges_file self_path lhs_p rhs_p"
  define tmp where "tmp = tmp_path_of final"
  have ne: "tmp \<noteq> final" unfolding tmp_def final_def by (rule tmp_path_differs)
  obtain a raised where b: "body session_start = (a, raised)" by (cases "body session_start")
  have untouched: "\<forall>q. q \<noteq> tmp \<and> q \<noteq> final \<longrightarrow>
        fst (save_edges_by_appending fs self_path lhs_p rhs_p body) q = fs q"
  proof (cases raised)
    case None
    from save_session_completed[where body=body and fs=fs and self_path=self_path and lhs_p=lhs_p and rhs_p=rhs_p, OF b[unfolded None]]
    show ?thesis by (auto simp: tmp_def final_def)
  next
    case (Some e)
    from save_session_raised[where body=body and fs=fs and self_path=self_path and lhs_p=lhs_p and rhs_p=rhs_p, OF b[unfolded Some]]
    show ?thesis by (auto simp: tmp_def final_def)
  qed
  have stale: "save_edges_by_appending (fs(tmp \<mapsto> stale)) self_path lhs_p rhs_p body =
     save_edges_by_appending (fs(tmp := None)) self_path lhs_p rhs_p body"
  proof (cases raised)
    case None
    from save_session_completed[where body=body and fs="fs(tmp \<mapsto> stale)" and self_path=self_path and lhs_p=lhs_p and rhs_p=rhs_p, OF b[unfolded None]]
         save_session_completed[where body=body and fs="fs(tmp := None)" and self_path=self_path and lhs_p=lhs_p and rhs_p=rhs_p, OF b[unfolded None]]
    show ?thesis by (auto simp: tmp_def final_def)
  next
    case (Some e)
    from save_session_raised[where body=body and fs="fs(tmp \<mapsto> stale)" and self_path=self_path and lhs_p=lhs_p and rhs_p=rhs_p, OF b[unfolded Some]]
         save_session_raised[where body=body and fs="fs(tmp := None)" and self_path=self_path and lhs_p=lhs_p and rhs_p=rhs_p, OF b[unfolded Some]]
    show ?thesis by (auto simp: tmp_def final_def)
  qed
  have raised: "\<forall>e. snd (body session_start) = Some e \<longrightarrow>
        snd (save_edges_by_appending fs self_path lhs_p rhs_p body) = Some e \<and>
        fst (save_edges_by_appending fs self_path lhs_p rhs_p body) final = fs final"
  proof (intro allI impI)
    fix e assume "snd (body session_start) = Some e"
    then have "body session_start = (a, Some e)" using b by simp
    from save_session_raised[where body=body and fs=fs and self_path=self_path and lhs_p=lhs_p and rhs_p=rhs_p, OF this] ne
    show "snd (save_edges_by_appending fs self_path lhs_p rhs_p body) = Some e \<and>
        fst (save_edges_by_appending fs self_path lhs_p rhs_p body) final = fs final"
      by (auto simp: tmp_def final_def)
  qed
  have completed: "snd (body session_start) = None \<longrightarrow>
      (\<exists>f. FileEdgeAppender_exit (fst (body session_start)) = Inr f \<and>
           save_edges_by_appending fs self_path lhs_p rhs_p body =
             (fs(tmp := None, final \<mapsto> f), None))"
  proof
    assume "snd (body session_start) = None"
    then have "body session_start = (a, None)" using b by simp
    from save_session_completed[where body=body and fs=fs and self_path=self_path and lhs_p=lhs_p and rhs_p=rhs_p, OF this]
    show "\<exists>f. FileEdgeAppender_exit (fst (body session_start)) = Inr f \<and>
           save_edges_by_appending fs self_path lhs_p rhs_p body =
             (fs(tmp := None, final \<mapsto> f), None)"
      using b by (auto simp: tmp_def final_def)
  qed
  show ?thesis
    using ne session_start_facts untouched stale raised completed
    unfolding tmp_def final_def by blast
qed

lemma save_edges_publishes:
  "\<exists>f. save_edges fs self_path lhs_p rhs_p edges =
          (fs(tmp_path_of (get_edges_file self_path lhs_p rhs_p) := None,
              get_edges_file self_path lhs_p rhs_p \<mapsto> f), None) \<and>
        attrs f FORMAT_VERSION_ATTR = Some FORMAT_VERSION"
proof -
  from append_edges_frame[of session_start edges]
  obtain a' where a': "append_edges session_start edges = Inr a'" "hf a' = hf session_start" by blast
  define body where "body = (\<lambda>appender. case append_edges appender edges of
                      Inl e \<Rightarrow> (appender, Some e)
                    | Inr appender' \<Rightarrow> (appender', None))"
  have b: "body session_start = (a', None)" by (simp add: body_def a'(1))
  from save_session_completed[where body=body and fs=fs and self_path=self_path and lhs_p=lhs_p and rhs_p=rhs_p, OF b]
  obtain f where f: "attrs f = attrs (hf a')"
     "save_edges_by_appending fs self_path lhs_p rhs_p body =
             (fs(tmp_path_of (get_edges_file self_path lhs_p rhs_p) := None,
                 get_edges_file self_path lhs_p rhs_p \<mapsto> f), None)" by blast
  have "attrs f FORMAT_VERSION_ATTR = Some FORMAT_VERSION"
    using f(1) a'(2) session_start_facts(1) by simp
  then show ?thesis using f(2) unfolding save_edges_def body_def by blast
qed

text \<open>
  Claim C3. In a session of \<open>save_edges_by_appending\<close>: the temporary path differs from
  the final path; the appender handed to the body is on a new file that holds the
  \<open>format_version\<close> attribute and no dataset, so the version is stamped before any column
  data is written; no path but the temporary and the final one changes; a stale
  temporary file is discarded, the outcome being the same as without it; when the body
  raises, the exception is passed on, the rename does not happen and the final path
  holds what it held before; when the body completes, the flushed and closed file is at
  the final path and the temporary path is empty.
\<close>

theorem atomic_publish:
  "tmp_path_of (get_edges_file self_path lhs_p rhs_p) \<noteq> get_edges_file self_path lhs_p rhs_p \<and>
   attrs (hf session_start) FORMAT_VERSION_ATTR = Some FORMAT_VERSION \<and>
   datasets session_start = [] \<and> columns (hf session_start) = Map.empty \<and>
   (\<forall>q. q \<noteq> tmp_path_of (get_edges_file self_path lhs_p rhs_p) \<and>
        q \<noteq> get_edges_file self_path lhs_p rhs_p \<longrightarrow>
        fst (save_edges_by_appending fs self_path lhs_p rhs_p body) q = fs q) \<and>
   save_edges_by_appending (fs(tmp_path_of (get_edges_file self_path lhs_p rhs_p) \<mapsto> stale))
       self_path lhs_p rhs_p body =
     save_edges_by_appending (fs(tmp_path_of (get_edges_file self_path lhs_p rhs_p) := None))
       self_path lhs_p rhs_p body \<and>
   (\<forall>e. snd (body session_start) = Some e \<longrightarrow>
        snd (save_edges_by_appending fs self_path lhs_p rhs_p body) = Some e \<and>
        fst (save_edges_by_appending fs self_path lhs_p rhs_p body)
          (get_edges_file self_path lhs_p rhs_p) = fs (get_edges_file self_path lhs_p rhs_p)) \<and>
   (snd (body session_start) = None \<longrightarrow>
      (\<exists>f. FileEdgeAppender_exit (fst (body session_start)) = Inr f \<and>
           save_edges_by_appending fs self_path lhs_p rhs_p body =
             (fs(tmp_path_of (get_edges_file self_path lhs_p rhs_p) := None,
                 get_edges_file self_path lhs_p rhs_p \<mapsto> f), None)))"
  by (rule atomic_publish_general)

theorem atomic_publish_witness:
  "snd (save_edges_by_appending [get_edges_file [''data''] 0 0 \<mapsto> empty_h5file] [''data''] 0 0
          (\<lambda>a. (a, Some ValueError))) = Some ValueError \<and>
   fst (save_edges_by_appending [get_edges_file [''data''] 0 0 \<mapsto> empty_h5file] [''data''] 0 0
          (\<lambda>a. (a, Some ValueError))) (get_edges_file [''data''] 0 0) = Some empty_h5file \<and>
   (\<exists>f. save_edges_by_appending Map.empty [''data''] 0 0 (\<lambda>a. (a, None)) =
          (Map.empty(tmp_path_of (get_edges_file [''data''] 0 0) := None,
                     get_edges_file [''data''] 0 0 \<mapsto> f), None))"
proof -
  have r: "snd ((\<lambda>a. (a, Some ValueError)) session_start) = Some ValueError" by simp
  have c: "snd ((\<lambda>a. (a, None :: error option)) session_start) = None" by simp
  have "snd (save_edges_by_appending [get_edges_file [''data''] 0 0 \<mapsto> empty_h5file] [''data''] 0 0
          (\<lambda>a. (a, Some ValueError))) = Some ValueError \<and>
   fst (save_edges_by_appending [get_edges_file [''data''] 0 0 \<mapsto> empty_h5file] [''data''] 0 0
          (\<lambda>a. (a, Some ValueError))) (get_edges_file [''data''] 0 0) =
     [get_edges_file [''data''] 0 0 \<mapsto> empty_h5file] (get_edges_file [''data''] 0 0)"
    using atomic_publish[where fs="[get_edges_file [''data''] 0 0 \<mapsto> empty_h5file]"
        and self_path="[''data'']" and lhs_p=0 and rhs_p=0 and body="\<lambda>a. (a, Some ValueError)"] r
    by blast
  moreover have "\<exists>f. save_edges_by_appending Map.empty [''data''] 0 0 (\<lambda>a. (a, None)) =
          (Map.empty(tmp_path_of (get_edges_file [''data''] 0 0) := None,
                     get_edges_file [''data''] 0 0 \<mapsto> f), None)"
    using atomic_publish[where fs="Map.empty"
        and self_path="[''data'']" and lhs_p=0 and rhs_p=0 and body="\<lambda>a. (a, None)"] c
    by blast
  ultimately show ?thesis by simp
qed

section \<open>The contents of a written shard\<close>

lemma total_data_content:
  "dataset_invariant d \<Longrightarrow> total_data d = int (length (dataset d @ pending d))"
  using length_pending[OF dataset_invariant_buffer_ok, of d]
  by (simp add: dataset_invariant_def)

lemma writers_ok_update:
  assumes "writers_ok a" "map_of (datasets a') = (map_of (datasets a))(name \<mapsto> d')"
    "dataset_invariant d'"
  shows "writers_ok a'"
  using assms by (auto simp: writers_ok_def)

lemma column_of_update:
  assumes "map_of (datasets a') = (map_of (datasets a))(name \<mapsto> d')"
  shows "column_of a' = (column_of a)(name \<mapsto> dataset d' @ pending d')"
  using assms by (auto simp: column_of_def fun_eq_iff)

lemma dataset_append_content:
  assumes w: "writers_ok a" and c: "column_of a name = Some old"
  shows "\<exists>a'. dataset_append a name t = Inr a' \<and> hf a' = hf a \<and> writers_ok a' \<and>
           column_of a' = (column_of a)(name \<mapsto> old @ t)"
proof -
  from c obtain d where d: "map_of (datasets a) name = Some d" "old = dataset d @ pending d"
    by (auto simp: column_of_def)
  have inv: "dataset_invariant d" using w d(1) by (simp add: writers_ok_def)
  from dataset_append_spec[OF d(1) inv, of t]
  obtain a' d' where a': "dataset_append a name t = Inr a'" "hf a' = hf a"
      "map_of (datasets a') = (map_of (datasets a))(name \<mapsto> d')"
      "dataset_invariant d'" "dataset d' @ pending d' = dataset d @ pending d @ t"
    by blast
  have "writers_ok a'" by (rule writers_ok_update[OF w a'(3) a'(4)])
  moreover have "column_of a' = (column_of a)(name \<mapsto> old @ t)"
    using column_of_update[OF a'(3)] a'(5) d(2) by simp
  ultimately show ?thesis using a'(1,2) by blast
qed

lemma create_dataset_content:
  assumes "writers_ok a"
  shows "writers_ok (create_dataset a name)"
    and "column_of (create_dataset a name) = (column_of a)(name \<mapsto> [])"
proof -
  show "writers_ok (create_dataset a name)"
    by (rule writers_ok_update[OF assms map_of_create_dataset dataset_invariant_init])
  have "dataset (BufferedDataset_init name) @ pending (BufferedDataset_init name) = []"
    by (simp add: pending_init) (simp add: BufferedDataset_init_def)
  then show "column_of (create_dataset a name) = (column_of a)(name \<mapsto> [])"
    using column_of_update[OF map_of_create_dataset, of a name] by simp
qed

lemma column_of_None: "(column_of a name = None) = (map_of (datasets a) name = None)"
  by (simp add: column_of_def)

lemma append_tensor_content:
  assumes w: "writers_ok a"
  shows "\<exists>a'. append_tensor a name t = Inr a' \<and> hf a' = hf a \<and> writers_ok a' \<and>
           column_of a' = put_tensor (column_of a) name t"
proof (cases "column_of a name")
  case None
  define a0 where "a0 = create_dataset a name"
  have w0: "writers_ok a0" and c0: "column_of a0 = (column_of a)(name \<mapsto> [])"
    unfolding a0_def by (rule create_dataset_content[OF w])+
  have "column_of a0 name = Some []" using c0 by simp
  from dataset_append_content[OF w0 this, of t]
  obtain a' where a': "dataset_append a0 name t = Inr a'" "hf a' = hf a0" "writers_ok a'"
      "column_of a' = (column_of a0)(name \<mapsto> [] @ t)" by blast
  have "append_tensor a name t = Inr a'"
    using None a'(1) by (simp add: append_tensor_def column_of_None a0_def)
  moreover have "column_of a' = put_tensor (column_of a) name t"
    using a'(4) c0 None by (simp add: put_tensor_def)
  moreover have "hf a' = hf a" using a'(2) by (simp add: a0_def)
  ultimately show ?thesis using a'(3) by blast
next
  case (Some old)
  from dataset_append_content[OF w Some, of t]
  obtain a' where a': "dataset_append a name t = Inr a'" "hf a' = hf a" "writers_ok a'"
      "column_of a' = (column_of a)(name \<mapsto> old @ t)" by blast
  obtain d where "map_of (datasets a) name = Some d"
    using Some by (auto simp: column_of_def)
  then have "append_tensor a name t = Inr a'"
    using a'(1) by (simp add: append_tensor_def)
  moreover have "column_of a' = put_tensor (column_of a) name t"
    using a'(4) Some by (simp add: put_tensor_def)
  ultimately show ?thesis using a'(2,3) by blast
qed

lemma append_tensor_list_content:
  assumes w: "writers_ok a"
  shows "\<exists>a'. append_tensor_list a name tlist = Inr a' \<and> hf a' = hf a \<and> writers_ok a' \<and>
           column_of a' = put_tensor_list (column_of a) name tlist"
proof -
  define c1 where "c1 = (if column_of a (name @ ''_offsets'') = None
                         then (column_of a)(name @ ''_offsets'' \<mapsto> [0]) else column_of a)"
  have "\<exists>a1. (if map_of (datasets a) (name @ ''_offsets'') = None
               then dataset_append (create_dataset a (name @ ''_offsets'')) (name @ ''_offsets'') [0]
               else Inr a) = Inr a1 \<and> hf a1 = hf a \<and> writers_ok a1 \<and> column_of a1 = c1"
  proof (cases "map_of (datasets a) (name @ ''_offsets'') = None")
    case True
    define a0 where "a0 = create_dataset a (name @ ''_offsets'')"
    have w0: "writers_ok a0"
      and c0: "column_of a0 = (column_of a)(name @ ''_offsets'' \<mapsto> [])"
      unfolding a0_def by (rule create_dataset_content[OF w])+
    have "column_of a0 (name @ ''_offsets'') = Some []" using c0 by simp
    from dataset_append_content[OF w0 this, of "[0]"]
    obtain a1 where a1: "dataset_append a0 (name @ ''_offsets'') [0] = Inr a1" "hf a1 = hf a0"
        "writers_ok a1" "column_of a1 = (column_of a0)(name @ ''_offsets'' \<mapsto> [] @ [0])"
      by blast
    have "column_of a1 = c1"
      using a1(4) c0 True by (simp add: c1_def column_of_None)
    moreover have "hf a1 = hf a" using a1(2) by (simp add: a0_def)
    ultimately show ?thesis using True a1(1,3) by (simp add: a0_def)
  next
    case False
    then obtain d where "map_of (datasets a) (name @ ''_offsets'') = Some d" by auto
    then show ?thesis using w by (simp add: c1_def column_of_def)
  qed
  then obtain a1 where a1:
      "(if map_of (datasets a) (name @ ''_offsets'') = None
        then dataset_append (create_dataset a (name @ ''_offsets'')) (name @ ''_offsets'') [0]
        else Inr a) = Inr a1" "hf a1 = hf a" "writers_ok a1" "column_of a1 = c1"
    by blast
  define a2 where "a2 = (if map_of (datasets a1) (name @ ''_data'') = None
                         then create_dataset a1 (name @ ''_data'') else a1)"
  define old where "old = (case c1 (name @ ''_data'') of None \<Rightarrow> [] | Some xs \<Rightarrow> xs)"
  have w2: "writers_ok a2"
    unfolding a2_def using a1(3) create_dataset_content(1)[OF a1(3)] by simp
  have c2: "column_of a2 = c1(name @ ''_data'' \<mapsto> old)"
  proof (cases "map_of (datasets a1) (name @ ''_data'') = None")
    case True
    then have "c1 (name @ ''_data'') = None" using a1(4) column_of_None[of a1] by simp
    then show ?thesis
      using True create_dataset_content(2)[OF a1(3), of "name @ ''_data''"] a1(4)
      by (simp add: a2_def old_def)
  next
    case False
    then obtain d0 where d0: "map_of (datasets a1) (name @ ''_data'') = Some d0" by auto
    then obtain xs where xs: "c1 (name @ ''_data'') = Some xs"
      using a1(4) by (auto simp: column_of_def)
    then have "c1(name @ ''_data'' \<mapsto> old) = c1" by (auto simp: old_def fun_eq_iff)
    then show ?thesis using d0 a1(4) by (simp add: a2_def)
  qed
  have o2: "column_of a2 (name @ ''_offsets'') = c1 (name @ ''_offsets'')"
    using c2 by simp
  obtain oo where oo: "c1 (name @ ''_offsets'') = Some oo"
    by (cases "column_of a (name @ ''_offsets'')") (auto simp: c1_def)
  obtain d where d: "map_of (datasets a2) (name @ ''_data'') = Some d"
      "dataset d @ pending d = old"
    using c2 by (auto simp: column_of_def fun_eq_iff split: if_splits)
  have inv: "dataset_invariant d" using w2 d(1) by (simp add: writers_ok_def)
  have tot: "total_data d = int (length old)"
    using total_data_content[OF inv] d(2) by simp
  define offs where "offs = map (\<lambda>x. wrap64 (x + total_data d)) (tl (offsets tlist))"
  have co2: "column_of a2 (name @ ''_offsets'') = Some oo" using o2 oo by simp
  from dataset_append_content[OF w2 co2, of offs]
  obtain a3 where a3: "dataset_append a2 (name @ ''_offsets'') offs = Inr a3" "hf a3 = hf a2"
      "writers_ok a3" "column_of a3 = (column_of a2)(name @ ''_offsets'' \<mapsto> oo @ offs)"
    by blast
  have cd3: "column_of a3 (name @ ''_data'') = Some old" using a3(4) c2 by simp
  from dataset_append_content[OF a3(3) cd3, of "data tlist"]
  obtain a4 where a4: "dataset_append a3 (name @ ''_data'') (data tlist) = Inr a4" "hf a4 = hf a3"
      "writers_ok a4" "column_of a4 = (column_of a3)(name @ ''_data'' \<mapsto> old @ data tlist)"
    by blast
  have run: "append_tensor_list a name tlist = Inr a4"
    unfolding append_tensor_list_def Let_def a1(1)
    using d(1) a3(1) a4(1) by (simp add: a2_def[symmetric] offs_def[symmetric])
  have h: "hf a4 = hf a" using a4(2) a3(2) a1(2) by (simp add: a2_def)
  have total: "(case c1 (name @ ''_data'') of None \<Rightarrow> 0 | Some xs \<Rightarrow> int (length xs)) = total_data d"
    using tot by (simp add: old_def split: option.splits)
  have "put_tensor_list (column_of a) name tlist =
          put_tensor (put_tensor c1 (name @ ''_offsets'') offs) (name @ ''_data'') (data tlist)"
    by (simp add: put_tensor_list_def Let_def c1_def[symmetric] total offs_def)
  also have "\<dots> = (c1(name @ ''_offsets'' \<mapsto> oo @ offs))(name @ ''_data'' \<mapsto> old @ data tlist)"
    by (simp add: put_tensor_def oo old_def)
  also have "\<dots> = column_of a4"
    using a4(4) a3(4) c2 by (auto simp: fun_eq_iff)
  finally have "column_of a4 = put_tensor_list (column_of a) name tlist" by simp
  then show ?thesis using run h a4(3) by blast
qed

lemma append_edges_content:
  assumes w: "writers_ok a"
  shows "\<exists>a'. append_edges a e = Inr a' \<and> hf a' = hf a \<and> writers_ok a' \<and>
           column_of a' = put_edges (column_of a) e"
proof -
  from append_tensor_content[OF w, of "''lhs''" "tensor (lhs e)"]
  obtain a1 where a1: "append_tensor a ''lhs'' (tensor (lhs e)) = Inr a1" "hf a1 = hf a"
      "writers_ok a1" "column_of a1 = put_tensor (column_of a) ''lhs'' (tensor (lhs e))" by blast
  from append_tensor_content[OF a1(3), of "''rhs''" "tensor (rhs e)"]
  obtain a2 where a2: "append_tensor a1 ''rhs'' (tensor (rhs e)) = Inr a2" "hf a2 = hf a1"
      "writers_ok a2" "column_of a2 = put_tensor (column_of a1) ''rhs'' (tensor (rhs e))" by blast
  from append_tensor_content[OF a2(3), of "''rel''" "rel e"]
  obtain a3 where a3: "append_tensor a2 ''rel'' (rel e) = Inr a3" "hf a3 = hf a2"
      "writers_ok a3" "column_of a3 = put_tensor (column_of a2) ''rel'' (rel e)" by blast
  define c4 where "c4 = (if length (data (tensor_list (lhs e))) \<noteq> 0
                         then put_tensor_list (column_of a3) ''lhsd'' (tensor_list (lhs e))
                         else column_of a3)"
  have "\<exists>a4. (if length (data (tensor_list (lhs e))) \<noteq> 0
               then append_tensor_list a3 ''lhsd'' (tensor_list (lhs e))
               else Inr a3) = Inr a4 \<and> hf a4 = hf a3 \<and> writers_ok a4 \<and> column_of a4 = c4"
    using append_tensor_list_content[OF a3(3), of "''lhsd''" "tensor_list (lhs e)"] a3(3)
    by (simp add: c4_def)
  then obtain a4 where a4: "(if length (data (tensor_list (lhs e))) \<noteq> 0
               then append_tensor_list a3 ''lhsd'' (tensor_list (lhs e))
               else Inr a3) = Inr a4" "hf a4 = hf a3" "writers_ok a4" "column_of a4 = c4"
    by blast
  define c5 where "c5 = (if length (data (tensor_list (rhs e))) \<noteq> 0
                         then put_tensor_list c4 ''rhsd'' (tensor_list (rhs e))
                         else c4)"
  have "\<exists>a5. (if length (data (tensor_list (rhs e))) \<noteq> 0
               then append_tensor_list a4 ''rhsd'' (tensor_list (rhs e))
               else Inr a4) = Inr a5 \<and> hf a5 = hf a4 \<and> writers_ok a5 \<and> column_of a5 = c5"
    using append_tensor_list_content[OF a4(3), of "''rhsd''" "tensor_list (rhs e)"] a4(3,4)
    by (simp add: c5_def)
  then obtain a5 where a5: "(if length (data (tensor_list (rhs e))) \<noteq> 0
               then append_tensor_list a4 ''rhsd'' (tensor_list (rhs e))
               else Inr a4) = Inr a5" "hf a5 = hf a4" "writers_ok a5" "column_of a5 = c5"
    by blast
  have run: "append_edges a e = Inr a5"
    unfolding append_edges_def using a1(1) a2(1) a3(1) a4(1) a5(1) by simp
  have "put_edges (column_of a) e = c5"
    unfolding put_edges_def Let_def c5_def c4_def a3(4) a2(4) a1(4) by simp
  then show ?thesis using run a5(2,3,4) a4(2) a3(2) a2(2) a1(2) by simp
qed

lemma append_edges_all_content:
  assumes w: "writers_ok a"
  shows "\<exists>a'. append_edges_all a es = Inr a' \<and> hf a' = hf a \<and> writers_ok a' \<and>
           column_of a' = foldl put_edges (column_of a) es"
  using w
proof (induction es arbitrary: a)
  case Nil
  then show ?case by simp
next
  case (Cons e es)
  from append_edges_content[OF Cons.prems, of e]
  obtain a1 where a1: "append_edges a e = Inr a1" "hf a1 = hf a" "writers_ok a1"
      "column_of a1 = put_edges (column_of a) e" by blast
  from Cons.IH[OF a1(3)]
  obtain a' where a': "append_edges_all a1 es = Inr a'" "hf a' = hf a1" "writers_ok a'"
      "column_of a' = foldl put_edges (column_of a1) es" by blast
  show ?case using a1 a' by simp
qed

text \<open>
  The shard of a session that appends the edge lists \<open>es\<close>, one call of \<open>append_edges\<close>
  each, and completes: the version attribute and the columns \<open>put_edges\<close> builds.
\<close>

lemma session_shard:
  "\<exists>a f. append_edges_all session_start es = Inr a \<and>
     FileEdgeAppender_exit a = Inr f \<and>
     attrs f FORMAT_VERSION_ATTR = Some FORMAT_VERSION \<and>
     columns f = foldl put_edges Map.empty es"
proof -
  have w: "writers_ok session_start" by (simp add: writers_ok_def session_start_facts)
  have c: "column_of session_start = Map.empty"
    by (simp add: column_of_def session_start_facts fun_eq_iff)
  from append_edges_all_content[OF w, of es]
  obtain a where a: "append_edges_all session_start es = Inr a" "hf a = hf session_start"
      "column_of a = foldl put_edges Map.empty es" using c by auto
  from FileEdgeAppender_exit_spec[of a]
  obtain f where f: "FileEdgeAppender_exit a = Inr f" "attrs f = attrs (hf a)"
      "\<forall>n. columns f n = (case map_of (datasets a) n of
                             Some d \<Rightarrow> Some (dataset d @ pending d)
                           | None \<Rightarrow> columns (hf a) n)" by blast
  have "columns f = column_of a"
    using f(3) a(2) by (auto simp: fun_eq_iff column_of_def session_start_facts split: option.splits)
  then show ?thesis using a f session_start_facts(1) by auto
qed

text \<open>
  A session that appends two edges without ragged data and then two edges whose
  left-hand sides carry the records \<open>[[7], [8, 9]]\<close> completes, and its shard holds four
  edges and two left-hand records: \<open>append_edges\<close> skipped the ragged append of the
  first edge list. \<open>load_edges\<close> asks for five offsets, the file holds three, and
  \<open>read_direct\<close> raises \<open>TypeError\<close>.
\<close>

lemma mixed_session_columns:
  "foldl put_edges Map.empty
     [\<lparr> lhs = \<lparr> tensor = [1, 2], tensor_list = ragged [[], []] \<rparr>,
        rhs = \<lparr> tensor = [3, 4], tensor_list = ragged [[], []] \<rparr>, rel = [0, 0] \<rparr>,
      \<lparr> lhs = \<lparr> tensor = [5, 6], tensor_list = ragged [[7], [8, 9]] \<rparr>,
        rhs = \<lparr> tensor = [7, 8], tensor_list = ragged [[], []] \<rparr>, rel = [0, 0] \<rparr>] =
   [''lhs'' \<mapsto> [1, 2, 5, 6], ''rhs'' \<mapsto> [3, 4, 7, 8], ''rel'' \<mapsto> [0, 0, 0, 0],
    ''lhsd_offsets'' \<mapsto> [0, 1, 3], ''lhsd_data'' \<mapsto> [7, 8, 9]]"
  by (auto simp: fun_eq_iff put_edges_def put_tensor_def put_tensor_list_def ragged_def
        wrap64_def Let_def)

lemma mixed_session_shard:
  "\<exists>a f. append_edges_all session_start
            [\<lparr> lhs = \<lparr> tensor = [1, 2], tensor_list = ragged [[], []] \<rparr>,
               rhs = \<lparr> tensor = [3, 4], tensor_list = ragged [[], []] \<rparr>, rel = [0, 0] \<rparr>,
             \<lparr> lhs = \<lparr> tensor = [5, 6], tensor_list = ragged [[7], [8, 9]] \<rparr>,
               rhs = \<lparr> tensor = [7, 8], tensor_list = ragged [[], []] \<rparr>, rel = [0, 0] \<rparr>] = Inr a \<and>
     FileEdgeAppender_exit a = Inr f \<and>
     columns f ''rel'' = Some [0, 0, 0, 0] \<and>
     columns f ''lhsd_offsets'' = Some [0, 1, 3] \<and>
     columns f ''lhsd_data'' = Some [7, 8, 9] \<and>
     \<not> valid_shard f \<and>
     load_edges [get_edges_file [''data''] 0 0 \<mapsto> f] [''data''] 0 0 = Inl TypeError"
proof -
  define es where "es =
            [\<lparr> lhs = \<lparr> tensor = [1, 2], tensor_list = ragged [[], []] \<rparr>,
               rhs = \<lparr> tensor = [3, 4], tensor_list = ragged [[], []] \<rparr>, rel = [0::int, 0] \<rparr>,
             \<lparr> lhs = \<lparr> tensor = [5, 6], tensor_list = ragged [[7], [8, 9]] \<rparr>,
               rhs = \<lparr> tensor = [7, 8], tensor_list = ragged [[], []] \<rparr>, rel = [0, 0] \<rparr>]"
  from session_shard[of es]
  obtain a f where af: "append_edges_all session_start es = Inr a"
      "FileEdgeAppender_exit a = Inr f"
      "attrs f FORMAT_VERSION_ATTR = Some FORMAT_VERSION"
      "columns f = foldl put_edges Map.empty es" by blast
  have cols: "columns f =
      [''lhs'' \<mapsto> [1, 2, 5, 6], ''rhs'' \<mapsto> [3, 4, 7, 8], ''rel'' \<mapsto> [0, 0, 0, 0],
       ''lhsd_offsets'' \<mapsto> [0, 1, 3], ''lhsd_data'' \<mapsto> [7, 8, 9]]"
    using af(4) mixed_session_columns by (simp add: es_def)
  have h: "(0::int) \<le> 4" "(4::int) \<le> 2 ^ 53" "(1::int) \<le> 1" by simp_all
  have "chunk_bounds 4 0 1 = Inr (0 * 4 div 1, (0 + 1) * 4 div 1)"
    by (rule chunk_tiling_general[OF h, THEN conjunct2, THEN conjunct2, THEN conjunct2, rule_format]) simp
  then have cb: "chunk_bounds 4 0 1 = Inr (0, 4)" by simp
  have load: "load_edges [get_edges_file [''data''] 0 0 \<mapsto> f] [''data''] 0 0 = Inl TypeError"
    by (simp add: load_edges_def load_chunk_of_edges_def af(3) cols cb read_column_def
        read_direct_def slice_index_def slice_def read_dynamic_def)
  have nv: "\<not> valid_shard f"
  proof
    assume v: "valid_shard f"
    have "\<exists>edges. load_chunk_of_edges [get_edges_file [''data''] 0 0 \<mapsto> f] [''data''] 0 0 0 1 =
            Inr edges"
      by (rule load_chunk_valid[of _ _ _ _ f]) (use v af(3) in simp_all)
    then show False using load by (simp add: load_edges_def)
  qed
  show ?thesis using af(1,2) cols load nv unfolding es_def by auto
qed
end
